theory Spec2Isabelle
  imports Main "HOL-Library.Word"
begin

section \<open>Data model of reader.go\<close>

text \<open>
  A byte is an 8-bit word.  Go's \<^verbatim>\<open>error\<close> values that the package creates or
  compares against are constructors: \<^verbatim>\<open>io.EOF\<close>, the
  \<^verbatim>\<open>errors.New("readahead: read after Close")\<close> value, the
  \<^verbatim>\<open>fmt.Errorf("panic reading: %v", r)\<close> value made by the recover handler of
  \<^verbatim>\<open>buffer.read\<close>, the three construction errors, and any other error of a
  collaborator (source, seeker, closer, sink).
\<close>

type_synonym byte = "8 word"

datatype error =
    EOF
  | ReadAfterClose
  | PanicReading string
  | BufferSizeTooSmall
  | NumberOfBuffersTooSmall
  | NilInputReader
  | OtherError string

text \<open>
  One call \<^verbatim>\<open>rd.Read(p)\<close> of the upstream \<^verbatim>\<open>io.Reader\<close>: it either returns
  \<^verbatim>\<open>(n, err)\<close> having written \<^verbatim>\<open>n\<close> bytes to the start of \<^verbatim>\<open>p\<close> (the bytes are
  listed, \<^verbatim>\<open>n\<close> is their number), or it panics with a message.  The upstream is a
  deterministic state machine: a function from its state and \<^verbatim>\<open>len(p)\<close> to the
  outcome and the next state.
\<close>

datatype pull = Pulled "byte list" "error option" | Panicked string

type_synonym 'u Reader = "'u \<Rightarrow> nat \<Rightarrow> pull \<times> 'u"

text \<open>\<^verbatim>\<open>io.Seeker\<close>: \<^verbatim>\<open>Seek(offset, whence)\<close> returns \<^verbatim>\<open>(res, err)\<close>.\<close>

datatype whence = SeekStart | SeekCurrent | SeekEnd

type_synonym 'u Seeker = "'u \<Rightarrow> int \<Rightarrow> whence \<Rightarrow> (int \<times> error option) \<times> 'u"

text \<open>\<^verbatim>\<open>io.ReaderAt\<close>: \<^verbatim>\<open>ReadAt(p, off)\<close>, given \<^verbatim>\<open>len(p)\<close> and \<^verbatim>\<open>off\<close>.\<close>

type_synonym 'u ReaderAt = "'u \<Rightarrow> nat \<Rightarrow> int \<Rightarrow> pull \<times> 'u"

text \<open>
  \<^verbatim>\<open>io.Writer\<close>: \<^verbatim>\<open>Write(p)\<close> returns \<^verbatim>\<open>(n, err)\<close>; the sink is a state machine as
  well.
\<close>

type_synonym 'w Writer = "'w \<Rightarrow> byte list \<Rightarrow> (nat \<times> error option) \<times> 'w"

text \<open>
  \<^verbatim>\<open>type buffer struct { err error; buf []byte; offset int; size int }\<close>.
  The slice \<^verbatim>\<open>buf\<close> is the list of its \<^verbatim>\<open>len(buf)\<close> bytes; its capacity is
  \<^verbatim>\<open>size\<close> throughout.
\<close>

record buffer =
  berr :: "error option"
  buf :: "byte list"
  offset :: nat
  bsize :: nat

text \<open>
  \<^verbatim>\<open>type reader struct\<close>.  The channels \<^verbatim>\<open>ready\<close> and \<^verbatim>\<open>reuse\<close> are FIFO
  queues of buffers.  The goroutine started by \<^verbatim>\<open>init\<close> is represented by
  \<^verbatim>\<open>exited\<close>: it is \<^verbatim>\<open>True\<close> once the goroutine has returned, which (by its two
  deferred calls) closes \<^verbatim>\<open>a.ready\<close> and \<^verbatim>\<open>a.exited\<close>.  \<^verbatim>\<open>inp\<close> is the state of
  \<^verbatim>\<open>a.in\<close>.  \<^verbatim>\<open>closer\<close> is \<^verbatim>\<open>None\<close> for a nil \<^verbatim>\<open>io.Closer\<close>, and otherwise holds
  what the closer's \<^verbatim>\<open>Close()\<close> returns; \<^verbatim>\<open>closed\<close> counts the calls made to it.
\<close>

record 'u reader =
  inp :: 'u
  closer :: "error option option"
  closed :: nat
  err :: "error option"
  ready :: "buffer list"
  reuse :: "buffer list"
  exited :: bool
  cur :: "buffer option"
  size_r :: nat
  buffers :: nat

text \<open>
  The consumer and the goroutine meet only at the channels, and while the
  goroutine runs it alone touches the source.  So one iteration of the goroutine
  is one step of the model, and such steps are interleaved with the consumer's
  calls in any order.  Both channels have room for \<^verbatim>\<open>buffers\<close> buffers and \<^verbatim>\<open>init\<close>
  creates that many, so a send never waits: the queues are lists without a bound.
  Go's \<^verbatim>\<open>int\<close> and \<^verbatim>\<open>int64\<close> values are lengths, byte counts and file offsets; they
  are natural numbers and integers here.
\<close>

section \<open>The buffer\<close>

definition newBuffer :: "nat \<Rightarrow> buffer" where
  "newBuffer sz = \<lparr>berr = None, buf = replicate sz 0, offset = 0, bsize = sz\<rparr>"

text \<open>\<^verbatim>\<open>isEmpty\<close>: true for a nil buffer and when \<^verbatim>\<open>len(b.buf)-b.offset <= 0\<close>.\<close>

definition isEmpty :: "buffer option \<Rightarrow> bool" where
  "isEmpty b = (case b of None \<Rightarrow> True
                | Some b' \<Rightarrow> int (length (buf b')) - int (offset b') \<le> 0)"

text \<open>
  \<^verbatim>\<open>buffer.read\<close>.  The deferred recover turns a panic of \<^verbatim>\<open>rd.Read\<close> into the
  error \<^verbatim>\<open>panic reading: ...\<close>, stored in \<^verbatim>\<open>b.err\<close> and returned; the two
  assignments after the call have not run then, so \<^verbatim>\<open>b.buf\<close> and \<^verbatim>\<open>b.offset\<close>
  keep their old values.  A count \<^verbatim>\<open>n\<close> above the capacity makes the reslice
  \<^verbatim>\<open>b.buf[0:n]\<close> panic, which the same handler recovers.
\<close>

definition buffer_read :: "'u Reader \<Rightarrow> buffer \<Rightarrow> 'u \<Rightarrow> (error option \<times> buffer) \<times> 'u" where
  "buffer_read rd b u =
     (case rd u (bsize b) of
        (Panicked m, u') \<Rightarrow>
          ((Some (PanicReading m), b\<lparr>berr := Some (PanicReading m)\<rparr>), u')
      | (Pulled bs e, u') \<Rightarrow>
          if length bs > bsize b
          then ((Some (PanicReading ''slice bounds out of range''),
                 b\<lparr>berr := Some (PanicReading ''slice bounds out of range'')\<rparr>), u')
          else ((e, b\<lparr>berr := e, buf := bs, offset := 0\<rparr>), u'))"

text \<open>\<^verbatim>\<open>buffer()\<close>: the slice \<^verbatim>\<open>b.buf[b.offset:]\<close>.\<close>

definition buffer_rest :: "buffer \<Rightarrow> byte list" where
  "buffer_rest b = drop (offset b) (buf b)"

definition inc :: "buffer \<Rightarrow> nat \<Rightarrow> buffer" where
  "inc b n = b\<lparr>offset := offset b + n\<rparr>"

section \<open>The pipeline\<close>

text \<open>
  \<^verbatim>\<open>init\<close>: fresh channels, \<^verbatim>\<open>buffers\<close> new buffers on \<^verbatim>\<open>reuse\<close>, a new
  goroutine.  \<^verbatim>\<open>init\<close> does not assign \<^verbatim>\<open>a.closer\<close>, so it is taken from the
  state that is reinitialised.
\<close>

definition init :: "'u reader \<Rightarrow> 'u \<Rightarrow> nat \<Rightarrow> nat \<Rightarrow> 'u reader" where
  "init a u n sz =
     a\<lparr>inp := u, ready := [], reuse := replicate n (newBuffer sz), exited := False,
       buffers := n, size_r := sz, cur := None, err := None\<rparr>"

text \<open>
  One iteration of the goroutine's loop taking the \<^verbatim>\<open>case b := <-a.reuse\<close> branch:
  fetch into the buffer, publish it on \<^verbatim>\<open>ready\<close>, and return (closing \<^verbatim>\<open>ready\<close>
  and \<^verbatim>\<open>exited\<close>) when the fetch gave an error.  With no buffer on \<^verbatim>\<open>reuse\<close>, or
  after the goroutine has returned, nothing happens.
\<close>

definition fetch_step :: "'u Reader \<Rightarrow> 'u reader \<Rightarrow> 'u reader" where
  "fetch_step rd a =
     (if exited a then a
      else case reuse a of
             [] \<Rightarrow> a
           | b # bs \<Rightarrow>
               (case buffer_read rd b (inp a) of
                  ((e, b'), u') \<Rightarrow>
                    a\<lparr>reuse := bs, ready := ready a @ [b'], inp := u', exited := (e \<noteq> None)\<rparr>))"

text \<open>
  The stop protocol of \<^verbatim>\<open>Close\<close> and \<^verbatim>\<open>Seek\<close>:
  \<^verbatim>\<open>select { case <-a.exited: case a.exit <- struct{}{}: <-a.exited }\<close>.
  The goroutine's \<^verbatim>\<open>select\<close> may still take the \<^verbatim>\<open>reuse\<close> branch some number of
  times before it takes the \<^verbatim>\<open>exit\<close> branch; \<^verbatim>\<open>k\<close> is that number, chosen by the
  scheduler.
\<close>

definition stop :: "'u Reader \<Rightarrow> nat \<Rightarrow> 'u reader \<Rightarrow> 'u reader" where
  "stop rd k a = ((fetch_step rd ^^ k) a)\<lparr>exited := True\<rparr>"

text \<open>
  \<^verbatim>\<open>fill\<close>.  The result \<^verbatim>\<open>None\<close> means that the call never returns.  The receive
  \<^verbatim>\<open>b, ok := <-a.ready\<close> takes the head of the queue; on an empty closed queue
  \<^verbatim>\<open>ok\<close> is false; on an empty open queue the consumer waits for the goroutine,
  which publishes the buffer of its next iteration (and never returns when the
  goroutine has no buffer to take from \<^verbatim>\<open>reuse\<close>).
\<close>

definition recv_ready :: "'u Reader \<Rightarrow> 'u reader \<Rightarrow> (error option \<times> 'u reader) option" where
  "recv_ready rd a =
     (case ready a of
        b # bs \<Rightarrow> Some (None, a\<lparr>ready := bs, cur := Some b\<rparr>)
      | [] \<Rightarrow>
          if exited a
          then (let a' = (if err a = None then a\<lparr>err := Some ReadAfterClose\<rparr> else a)
                in Some (err a', a'))
          else (case reuse a of
                  [] \<Rightarrow> None
                | _ # _ \<Rightarrow>
                    (case ready (fetch_step rd a) of
                       [] \<Rightarrow> None
                     | b # bs \<Rightarrow> Some (None, (fetch_step rd a)\<lparr>ready := bs, cur := Some b\<rparr>))))"

definition fill :: "'u Reader \<Rightarrow> 'u reader \<Rightarrow> (error option \<times> 'u reader) option" where
  "fill rd a =
     (if isEmpty (cur a)
      then recv_ready rd
             (case cur a of
                Some b \<Rightarrow> a\<lparr>reuse := reuse a @ [b], cur := None\<rparr>
              | None \<Rightarrow> a)
      else Some (None, a))"

text \<open>
  \<^verbatim>\<open>Read(p)\<close>, given \<^verbatim>\<open>len(p)\<close>: the result is \<^verbatim>\<open>(n, err)\<close> with the \<^verbatim>\<open>n\<close> bytes
  copied to \<^verbatim>\<open>p\<close>, and the new state.  A successful \<^verbatim>\<open>fill\<close> leaves \<^verbatim>\<open>a.cur\<close>
  non-nil (lemma \<open>fill_cur\<close>).
\<close>

definition Read :: "'u Reader \<Rightarrow> 'u reader \<Rightarrow> nat \<Rightarrow> ((nat \<times> byte list \<times> error option) \<times> 'u reader) option" where
  "Read rd a p =
     (if err a \<noteq> None then Some ((0, [], err a), a)
      else case fill rd a of
             None \<Rightarrow> None
           | Some (Some e, a1) \<Rightarrow> Some ((0, [], Some e), a1)
           | Some (None, a1) \<Rightarrow>
               (case cur a1 of
                  None \<Rightarrow> None
                | Some b \<Rightarrow>
                    (let n = min p (length (buffer_rest b));
                         b' = inc b n
                     in if isEmpty (Some b')
                        then Some ((n, take n (buffer_rest b), berr b'),
                                   a1\<lparr>cur := Some b', err := berr b'\<rparr>)
                        else Some ((n, take n (buffer_rest b), None), a1\<lparr>cur := Some b'\<rparr>))))"

text \<open>
  The \<^verbatim>\<open>for\<close> loop of \<^verbatim>\<open>WriteTo\<close>, with the running total \<^verbatim>\<open>n\<close> and the state
  of the sink.  The loop runs for ever on a source that never reports an error,
  so the result is an option.
\<close>

partial_function (option) WriteTo_loop ::
  "'u Reader \<Rightarrow> 'w Writer \<Rightarrow> nat \<Rightarrow> 'u reader \<Rightarrow> 'w \<Rightarrow> ((nat \<times> error option) \<times> 'u reader \<times> 'w) option"
where
  "WriteTo_loop rd wr n a w =
     (case fill rd a of
        None \<Rightarrow> None
      | Some (Some e, a1) \<Rightarrow> Some ((n, Some e), a1, w)
      | Some (None, a1) \<Rightarrow>
          (case cur a1 of
             None \<Rightarrow> None
           | Some b \<Rightarrow>
               (case wr w (buffer_rest b) of
                  ((n2, werr), w') \<Rightarrow>
                    (case werr of
                       Some e \<Rightarrow> Some ((n + n2, Some e), a1\<lparr>cur := Some (inc b n2)\<rparr>, w')
                     | None \<Rightarrow>
                         (case berr b of
                            Some e \<Rightarrow>
                              if e = EOF
                              then Some ((n + n2, None),
                                         a1\<lparr>cur := Some (inc b n2), err := Some e\<rparr>, w')
                              else Some ((n + n2, Some e),
                                         a1\<lparr>cur := Some (inc b n2), err := Some e\<rparr>, w')
                          | None \<Rightarrow>
                              WriteTo_loop rd wr (n + n2) (a1\<lparr>cur := Some (inc b n2)\<rparr>) w')))))"

declare WriteTo_loop.simps [code]

definition WriteTo ::
  "'u Reader \<Rightarrow> 'w Writer \<Rightarrow> 'u reader \<Rightarrow> 'w \<Rightarrow> ((nat \<times> error option) \<times> 'u reader \<times> 'w) option"
where
  "WriteTo rd wr a w =
     (if err a \<noteq> None then Some ((0, err a), a, w) else WriteTo_loop rd wr 0 a w)"

text \<open>
  \<^verbatim>\<open>Close\<close>: stop the goroutine; with a closer, forget it and return what its
  \<^verbatim>\<open>Close()\<close> returns; without one, latch \<^verbatim>\<open>read after Close\<close>.
\<close>

definition Close :: "'u Reader \<Rightarrow> nat \<Rightarrow> 'u reader \<Rightarrow> error option \<times> 'u reader" where
  "Close rd k a =
     (let a1 = stop rd k a
      in case closer a1 of
           Some c \<Rightarrow> (c, a1\<lparr>closer := None, closed := closed a1 + 1\<rparr>)
         | None \<Rightarrow> (None, a1\<lparr>err := Some ReadAfterClose\<rparr>))"

text \<open>
  The loop of \<^verbatim>\<open>Seek\<close> for \<^verbatim>\<open>io.SeekCurrent\<close>:
  \<^verbatim>\<open>for a.cur != nil { if err = a.fill(); err == nil && a.cur != nil { ... } }\<close>,
  on the offset and the state.
\<close>

partial_function (option) seek_drain ::
  "'u Reader \<Rightarrow> int \<Rightarrow> 'u reader \<Rightarrow> (int \<times> 'u reader) option"
where
  "seek_drain rd off a =
     (case cur a of
        None \<Rightarrow> Some (off, a)
      | Some _ \<Rightarrow>
          (case fill rd a of
             None \<Rightarrow> None
           | Some (e, a1) \<Rightarrow>
               (case cur a1 of
                  None \<Rightarrow> seek_drain rd off a1
                | Some b \<Rightarrow>
                    if e = None
                    then seek_drain rd (off - int (length (buffer_rest b)))
                           (a1\<lparr>cur := Some (b\<lparr>offset := length (buf b)\<rparr>)\<rparr>)
                    else seek_drain rd off a1)))"

declare seek_drain.simps [code]

text \<open>
  \<^verbatim>\<open>seekable.Seek\<close>, for the seeker \<^verbatim>\<open>sk\<close> that \<^verbatim>\<open>a.in\<close> implements.  The result
  is \<^verbatim>\<open>(res, err)\<close> as \<^verbatim>\<open>seeker.Seek\<close> returned them.
\<close>

definition Seek ::
  "'u Reader \<Rightarrow> 'u Seeker \<Rightarrow> nat \<Rightarrow> 'u reader \<Rightarrow> int \<Rightarrow> whence \<Rightarrow> ((int \<times> error option) \<times> 'u reader) option"
where
  "Seek rd sk k a off wh =
     (case (if wh = SeekCurrent then seek_drain rd off (stop rd k a)
            else Some (off, stop rd k a)) of
        None \<Rightarrow> None
      | Some (off', a1) \<Rightarrow>
          (case sk (inp a1) off' wh of
             ((res, None), u') \<Rightarrow> Some ((res, None), init a1 u' (buffers a1) (size_r a1))
           | ((res, Some e), u') \<Rightarrow> Some ((res, Some e), a1\<lparr>inp := u'\<rparr>)))"

text \<open>
  \<^verbatim>\<open>seekable.ReadAt\<close>: seek from the start, then read.
\<close>

definition ReadAt ::
  "'u Reader \<Rightarrow> 'u Seeker \<Rightarrow> nat \<Rightarrow> 'u reader \<Rightarrow> nat \<Rightarrow> int \<Rightarrow> ((nat \<times> byte list \<times> error option) \<times> 'u reader) option"
where
  "ReadAt rd sk k a p off =
     (case Seek rd sk k a off SeekStart of
        None \<Rightarrow> None
      | Some ((res, Some e), a1) \<Rightarrow> Some ((0, [], Some e), a1)
      | Some ((res, None), a1) \<Rightarrow> Read rd a1 p)"

text \<open>
  The constructors.  \<^verbatim>\<open>rd\<close> is \<^verbatim>\<open>None\<close> for a nil reader.  \<^verbatim>\<open>NewReaderSize\<close>
  leaves the closer nil, \<^verbatim>\<open>NewReadCloserSize\<close> stores the argument as closer,
  here what its \<^verbatim>\<open>Close()\<close> will return.
\<close>

definition empty_reader :: "'u \<Rightarrow> error option option \<Rightarrow> 'u reader" where
  "empty_reader u c =
     \<lparr>inp = u, closer = c, closed = 0, err = None, ready = [], reuse = [], exited = False,
      cur = None, size_r = 0, buffers = 0\<rparr>"

definition NewReaderSize :: "'u option \<Rightarrow> int \<Rightarrow> int \<Rightarrow> error + 'u reader" where
  "NewReaderSize rd n sz =
     (if sz \<le> 0 then Inl BufferSizeTooSmall
      else if n \<le> 0 then Inl NumberOfBuffersTooSmall
      else case rd of
             None \<Rightarrow> Inl NilInputReader
           | Some u \<Rightarrow> Inr (init (empty_reader u None) u (nat n) (nat sz)))"

definition NewReadCloserSize :: "'u option \<Rightarrow> error option \<Rightarrow> int \<Rightarrow> int \<Rightarrow> error + 'u reader" where
  "NewReadCloserSize rc c n sz =
     (if sz \<le> 0 then Inl BufferSizeTooSmall
      else if n \<le> 0 then Inl NumberOfBuffersTooSmall
      else case rc of
             None \<Rightarrow> Inl NilInputReader
           | Some u \<Rightarrow> Inr (init (empty_reader u (Some c)) u (nat n) (nat sz)))"

text \<open>
  \<^verbatim>\<open>readerat.Read\<close>, the \<^verbatim>\<open>io.Reader\<close> that \<^verbatim>\<open>NewReaderAt\<close> hands to \<^verbatim>\<open>NewReader\<close>
  (4 buffers of \<^verbatim>\<open>1<<20\<close> bytes).
\<close>

definition readerat_Read :: "'u ReaderAt \<Rightarrow> 'u Reader" where
  "readerat_Read ra u p = ra u p 0"

text \<open>
  \<^verbatim>\<open>NewReader\<close> returns nil for a nil reader; the error branch of its call of
  \<^verbatim>\<open>NewReaderSize\<close> (a panic) cannot be taken with 4 buffers of \<^verbatim>\<open>1<<20\<close> bytes.
\<close>

definition NewReader :: "'u option \<Rightarrow> 'u reader option" where
  "NewReader rd =
     (case rd of
        None \<Rightarrow> None
      | Some u \<Rightarrow>
          (case NewReaderSize (Some u) 4 (2 ^ 20) of
             Inl e \<Rightarrow> None
           | Inr a \<Rightarrow> Some a))"

section \<open>Collaborators used by the tests\<close>

text \<open>
  \<^verbatim>\<open>SeekerBuffer\<close> of reader\_test.go: the bytes written to it and a position.
  \<^verbatim>\<open>Read\<close> reads from \<^verbatim>\<open>s.Bytes()[s.pos:]\<close> through a \<^verbatim>\<open>bytes.Reader\<close> (which
  reports \<^verbatim>\<open>io.EOF\<close> with no bytes once nothing is left, and no error together
  with bytes); the slice expression panics for a position outside the bytes.
  \<^verbatim>\<open>Seek\<close> rejects an offset above the length and otherwise moves the position.
\<close>

record SeekerBuffer =
  Bytes :: "byte list"
  pos :: int

definition SeekerBuffer_Read :: "SeekerBuffer Reader" where
  "SeekerBuffer_Read s p =
     (if pos s < 0 \<or> pos s > int (length (Bytes s))
      then (Panicked ''slice bounds out of range'', s)
      else if drop (nat (pos s)) (Bytes s) = [] then (Pulled [] (Some EOF), s)
      else (Pulled (take p (drop (nat (pos s)) (Bytes s))) None,
            if min p (length (drop (nat (pos s)) (Bytes s))) > 0
            then s\<lparr>pos := pos s + int (min p (length (drop (nat (pos s)) (Bytes s))))\<rparr>
            else s))"

definition SeekerBuffer_Seek :: "SeekerBuffer Seeker" where
  "SeekerBuffer_Seek s off wh =
     (if off > int (length (Bytes s)) then ((0, Some (OtherError ''wrong offset'')), s)
      else (let res = (case wh of
                         SeekStart \<Rightarrow> off
                       | SeekCurrent \<Rightarrow> pos s + off
                       | SeekEnd \<Rightarrow> int (length (Bytes s)) + off)
            in ((res, None), s\<lparr>pos := res\<rparr>)))"

text \<open>
  \<^verbatim>\<open>dummyReader\<close> of reader\_test.go wraps any function as a reader; the one of
  \<^verbatim>\<open>TestReaderPanic\<close> panics on every call.
\<close>

definition panicReader :: "unit Reader" where
  "panicReader u p = (Panicked ''some underlying panic'', u)"

text \<open>
  A reader that replays a fixed list of outcomes, one per call, and reports
  \<^verbatim>\<open>io.EOF\<close> afterwards: any chunking of any finite byte sequence, with any
  error at its end, is such a list.
\<close>

definition scriptReader :: "pull list Reader" where
  "scriptReader u p = (case u of [] \<Rightarrow> (Pulled [] (Some EOF), []) | x # xs \<Rightarrow> (x, xs))"

text \<open>
  \<^verbatim>\<open>bytes.Buffer\<close> as a sink: \<^verbatim>\<open>Write\<close> appends all of \<^verbatim>\<open>p\<close> and returns
  \<^verbatim>\<open>(len(p), nil)\<close>.
\<close>

definition bytesBuffer_Write :: "byte list Writer" where
  "bytesBuffer_Write w p = ((length p, None), w @ p)"

text \<open>
  \<^verbatim>\<open>bytes.Reader.ReadAt\<close> over fixed bytes: a negative offset is an error, an
  offset at or after the end gives \<^verbatim>\<open>io.EOF\<close>, and a read that does not fill
  \<^verbatim>\<open>p\<close> gives the bytes together with \<^verbatim>\<open>io.EOF\<close>.
\<close>

definition bytesReader_ReadAt :: "byte list ReaderAt" where
  "bytesReader_ReadAt s p off =
     (if off < 0 then (Pulled [] (Some (OtherError ''bytes.Reader.ReadAt: negative offset'')), s)
      else if off \<ge> int (length s) then (Pulled [] (Some EOF), s)
      else (Pulled (take p (drop (nat off) s))
                   (if length (drop (nat off) s) < p then Some EOF else None), s))"

text \<open>
  \<^verbatim>\<open>NewReaderAt\<close> is \<^verbatim>\<open>NewReader(newReaderAt(rd)).(ReadAtCloser)\<close>.  The first
  component is the value handed to the caller, the second the pipeline that
  \<^verbatim>\<open>NewReader\<close> has started (its goroutine reads through \<^verbatim>\<open>readerat.Read\<close>).
  \<^verbatim>\<open>readerat\<close> is no \<^verbatim>\<open>io.Seeker\<close>, so \<^verbatim>\<open>NewReaderSize\<close> returns the plain
  \<^verbatim>\<open>*reader\<close>, which has no \<^verbatim>\<open>ReadAt\<close> method: the type assertion fails and the
  caller gets nil.
\<close>

definition NewReaderAt :: "'u option \<Rightarrow> 'u reader option \<times> 'u reader option" where
  "NewReaderAt rd = (None, NewReader rd)"

text \<open>
  A \<^verbatim>\<open>ReaderAt\<close> that behaves as \<^verbatim>\<open>ra\<close> and also records the offset of every call
  it receives.
\<close>

definition recording :: "'u ReaderAt \<Rightarrow> ('u \<times> int list) ReaderAt" where
  "recording ra s p off = (case ra (fst s) p off of (r, u') \<Rightarrow> (r, (u', snd s @ [off])))"

section \<open>Sequences of calls\<close>

text \<open>
  What a client and the scheduler can do to a stream, in some order: let the
  goroutine run one iteration, \<^verbatim>\<open>Read\<close> into a buffer of some length,
  \<^verbatim>\<open>WriteTo\<close> the sink, \<^verbatim>\<open>Close\<close>, \<^verbatim>\<open>Seek\<close>.  \<^verbatim>\<open>run\<close> performs a list of calls
  on the stream and the sink, and is \<^verbatim>\<open>None\<close> when one of them never returns.
\<close>

datatype call = Fetch | CallRead nat | CallWriteTo | CallClose nat | CallSeek nat int whence

definition do_call ::
  "'u Reader \<Rightarrow> 'u Seeker \<Rightarrow> 'w Writer \<Rightarrow> call \<Rightarrow> 'u reader \<times> 'w \<Rightarrow> ('u reader \<times> 'w) option"
where
  "do_call rd sk wr c s =
     (case s of (a, w) \<Rightarrow>
        (case c of
           Fetch \<Rightarrow> Some (fetch_step rd a, w)
         | CallRead p \<Rightarrow> (case Read rd a p of None \<Rightarrow> None | Some (r, a') \<Rightarrow> Some (a', w))
         | CallWriteTo \<Rightarrow>
             (case WriteTo rd wr a w of None \<Rightarrow> None | Some (r, a', w') \<Rightarrow> Some (a', w'))
         | CallClose k \<Rightarrow> Some (snd (Close rd k a), w)
         | CallSeek k off wh \<Rightarrow>
             (case Seek rd sk k a off wh of None \<Rightarrow> None | Some (r, a') \<Rightarrow> Some (a', w))))"

fun run ::
  "'u Reader \<Rightarrow> 'u Seeker \<Rightarrow> 'w Writer \<Rightarrow> call list \<Rightarrow> 'u reader \<times> 'w \<Rightarrow> ('u reader \<times> 'w) option"
where
  "run rd sk wr [] s = Some s"
| "run rd sk wr (c # cs) s =
     (case do_call rd sk wr c s of None \<Rightarrow> None | Some s' \<Rightarrow> run rd sk wr cs s')"

text \<open>The closer and the number of calls made to it.\<close>

definition release :: "'u reader \<Rightarrow> error option option \<times> nat" where
  "release a = (closer a, closed a)"

text \<open>
  Streams for the examples: over a \<^verbatim>\<open>SeekerBuffer\<close> holding \<^verbatim>\<open>Testbuffer\<close>, with
  one buffer of four bytes, without and with a closer; and over the reader that
  always panics, with one buffer of two bytes.
\<close>

definition Testbuffer :: SeekerBuffer where
  "Testbuffer = \<lparr>Bytes = [84, 101, 115, 116, 98, 117, 102, 102, 101, 114], pos = 0\<rparr>"

definition seeker_stream :: "SeekerBuffer reader" where
  "seeker_stream = init (empty_reader Testbuffer None) Testbuffer 1 4"

definition closer_stream :: "SeekerBuffer reader" where
  "closer_stream = init (empty_reader Testbuffer (Some None)) Testbuffer 1 4"

definition panic_stream :: "unit reader" where
  "panic_stream = init (empty_reader () None) () 1 2"



definition dataerr_stream :: "pull list reader" where
  "dataerr_stream =
     init (empty_reader [Pulled [84, 101] (Some EOF)] None) [Pulled [84, 101] (Some EOF)] 1 4"


text \<open>
  Streams with two buffers of four bytes over a reader that delivers two bytes,
  then one byte together with \<^verbatim>\<open>io.EOF\<close>, and over a reader that delivers one byte
  together with another error; and a sink that accepts nothing and fails.
\<close>

definition two_chunk_stream :: "pull list reader" where
  "two_chunk_stream =
     init (empty_reader [Pulled [84, 101] None, Pulled [115] (Some EOF)] None)
       [Pulled [84, 101] None, Pulled [115] (Some EOF)] 2 4"

definition error_stream :: "pull list reader" where
  "error_stream =
     init (empty_reader [Pulled [84] (Some (OtherError ''some error''))] None)
       [Pulled [84] (Some (OtherError ''some error''))] 2 4"

definition failingWriter :: "unit Writer" where
  "failingWriter w p = ((0, Some (OtherError ''short write'')), w)"


text \<open>
  A stream with two buffers of two bytes over a reader that delivers two bytes and
  panics on its second call (as the reader of \<^verbatim>\<open>TestReaderLatePanic\<close> does after
  ten calls).
\<close>

definition late_panic_stream :: "pull list reader" where
  "late_panic_stream =
     init (empty_reader [Pulled [84, 101] None, Panicked ''late panic''] None)
       [Pulled [84, 101] None, Panicked ''late panic''] 2 2"

section \<open>Reference semantics and invariant\<close>

text \<open>
  Reading a source directly, with \<^verbatim>\<open>k\<close> calls at most, each with a buffer of \<^verbatim>\<open>sz\<close>
  bytes, up to its first error: the bytes obtained, the error (none when the
  calls ran out first) and the state the source is left in.
\<close>

fun direct :: "'u Reader \<Rightarrow> nat \<Rightarrow> nat \<Rightarrow> 'u \<Rightarrow> byte list \<times> error option \<times> 'u" where
  "direct rd sz 0 u = ([], None, u)"
| "direct rd sz (Suc k) u =
     (case rd u sz of
        (Panicked m, u') \<Rightarrow> ([], Some (PanicReading m), u')
      | (Pulled bs e, u') \<Rightarrow>
          (case e of
             Some x \<Rightarrow> (bs, Some x, u')
           | None \<Rightarrow> (case direct rd sz k u' of (bs', e', u'') \<Rightarrow> (bs @ bs', e', u''))))"

text \<open>
  A consumer draining a stream by \<^verbatim>\<open>Read\<close> calls: before each call, with a buffer
  of length \<^verbatim>\<open>p\<close>, the goroutine runs \<^verbatim>\<open>j\<close> iterations.  The consumer stops at the
  first call that returns an error.  The result is the bytes delivered, that
  error (none when the calls ran out first) and the final state.
\<close>

fun drain :: "'u Reader \<Rightarrow> (nat \<times> nat) list \<Rightarrow> 'u reader \<Rightarrow> (byte list \<times> error option \<times> 'u reader) option" where
  "drain rd [] a = Some ([], None, a)"
| "drain rd ((j, p) # ps) a =
     (case Read rd ((fetch_step rd ^^ j) a) p of
        None \<Rightarrow> None
      | Some ((n, out, e), a') \<Rightarrow>
          (case e of
             Some x \<Rightarrow> Some (out, Some x, a')
           | None \<Rightarrow>
               (case drain rd ps a' of
                  None \<Rightarrow> None
                | Some (outs, e', a'') \<Rightarrow> Some (out @ outs, e', a''))))"

text \<open>
  A source that, asked for \<^verbatim>\<open>sz\<close> bytes, always returns (it never panics) and never
  reports more than \<^verbatim>\<open>sz\<close> bytes.
\<close>

definition well_behaved :: "'u Reader \<Rightarrow> nat \<Rightarrow> bool" where
  "well_behaved rd sz = (\<forall>u. \<exists>bs e u'. rd u sz = (Pulled bs e, u') \<and> length bs \<le> sz)"

text \<open>
  The chunks fetched and not yet recycled, in the order they were fetched, and
  their unread bytes.
\<close>

definition chunks :: "'u reader \<Rightarrow> buffer list" where
  "chunks a = (case cur a of Some b \<Rightarrow> [b] | None \<Rightarrow> []) @ ready a"

definition pending :: "'u reader \<Rightarrow> byte list" where
  "pending a = concat (map buffer_rest (chunks a))"

text \<open>
  The invariant of a stream that is only read from: nothing is latched; the bytes
  delivered so far followed by the unread bytes of the chunks are what some number
  of direct calls obtain from the source, which is in the state those calls leave
  it in; the goroutine has returned exactly when the last of those calls reported
  an error, and then the last chunk, and no other, carries that error; and the
  pool holds its \<^verbatim>\<open>n\<close> buffers, all of size \<^verbatim>\<open>sz\<close>.  \<^verbatim>\<open>cur_ok\<close>: a drained current
  chunk carries no error (its error would have been latched).
\<close>

definition status_ok :: "error option list \<Rightarrow> error option \<Rightarrow> bool" where
  "status_ok es st =
     (case st of
        None \<Rightarrow> (\<forall>e \<in> set es. e = None)
      | Some x \<Rightarrow> es \<noteq> [] \<and> last es = Some x \<and> (\<forall>e \<in> set (butlast es). e = None))"

definition cur_ok :: "'u reader \<Rightarrow> bool" where
  "cur_ok a = (case cur a of None \<Rightarrow> True
               | Some b \<Rightarrow> length (buf b) \<le> offset b \<longrightarrow> berr b = None)"

definition fid_inv :: "'u Reader \<Rightarrow> nat \<Rightarrow> 'u \<Rightarrow> nat \<Rightarrow> 'u reader \<Rightarrow> byte list \<Rightarrow> bool" where
  "fid_inv rd sz u0 n a D =
     (err a = None \<and>
      (\<forall>b \<in> set (ready a). offset b = 0) \<and>
      (\<forall>b \<in> set (reuse a). bsize b = sz) \<and>
      (\<forall>b \<in> set (chunks a). bsize b = sz) \<and>
      length (reuse a) + length (chunks a) = n \<and>
      (\<exists>k st. direct rd sz k u0 = (D @ pending a, st, inp a) \<and>
               (exited a \<longleftrightarrow> st \<noteq> None) \<and>
               status_ok (map berr (chunks a)) st))"

text \<open>The measure by which the loop of \<^verbatim>\<open>Seek\<close> ends on a stopped pipeline.\<close>

definition drain_measure :: "'u reader \<Rightarrow> nat" where
  "drain_measure a =
     2 * length (ready a) +
     (case cur a of None \<Rightarrow> 0 | Some b \<Rightarrow> if length (buf b) \<le> offset b then 1 else 2)"

section \<open>Basic facts\<close>

lemma fill_cur: "fill rd a = Some (None, a1) \<Longrightarrow> cur a1 \<noteq> None"
  by (auto simp: fill_def recv_ready_def isEmpty_def Let_def
           split: option.splits list.splits if_splits)

lemma fill_err: "fill rd a = Some (None, a1) \<Longrightarrow> err a1 = err a"
  by (auto simp: fill_def recv_ready_def fetch_step_def isEmpty_def Let_def
           split: option.splits list.splits if_splits prod.splits)

lemma fetch_step_err: "err (fetch_step rd a) = err a"
  by (auto simp: fetch_step_def split: list.splits prod.splits)

lemma fetch_step_cur: "cur (fetch_step rd a) = cur a"
  by (auto simp: fetch_step_def split: list.splits prod.splits)


lemma funpow_fetch_cur: "cur ((fetch_step rd ^^ k) a) = cur a"
  by (induction k) (simp_all add: fetch_step_cur)



lemma stop_exited: "exited (stop rd k a)"
  by (simp add: stop_def)

lemma fill_fail:
  "fill rd a = Some (Some e, a1) \<Longrightarrow>
     cur a1 = None \<and> err a1 = Some e \<and> exited a \<and>
     err a1 = (if err a = None then Some ReadAfterClose else err a)"
  by (auto simp: fill_def recv_ready_def Let_def split: option.splits list.splits if_splits)

lemma fill_exited: "exited a \<Longrightarrow> fill rd a = Some (e, a1) \<Longrightarrow> exited a1 \<and> inp a1 = inp a"
  by (auto simp: fill_def recv_ready_def Let_def split: option.splits list.splits if_splits)

lemma fill_cur_None:
  "fill rd a = Some (e, a1) \<Longrightarrow> cur a1 = None \<Longrightarrow> e \<noteq> None"
  by (cases e) (auto dest: fill_cur)

lemma seek_drain_cases [consumes 1, case_names Done Failed Drained]:
  assumes run: "seek_drain rd off a = Some y"
    and base: "\<And>off a. cur a = None \<Longrightarrow> P off a (off, a)"
    and fail: "\<And>off a b e a1 y.
        cur a = Some b \<Longrightarrow> fill rd a = Some (Some e, a1) \<Longrightarrow> P off a1 y \<Longrightarrow> P off a y"
    and step: "\<And>off a b a1 b1 y.
        cur a = Some b \<Longrightarrow> fill rd a = Some (None, a1) \<Longrightarrow> cur a1 = Some b1 \<Longrightarrow>
        P (off - int (length (buffer_rest b1)))
          (a1\<lparr>cur := Some (b1\<lparr>offset := length (buf b1)\<rparr>)\<rparr>) y \<Longrightarrow>
        P off a y"
  shows "P off a y"
proof -
  have "rd = rd \<longrightarrow> P off a y"
  proof (rule seek_drain.raw_induct [where P = "\<lambda>r off a y. r = rd \<longrightarrow> P off a y", OF _ run])
    fix loop r off a y
    assume IH: "\<And>r off a y. loop r off a = Some y \<Longrightarrow> r = rd \<longrightarrow> P off a y"
    assume body: "(case cur a of
        None \<Rightarrow> Some (off, a)
      | Some _ \<Rightarrow>
          (case fill r a of
             None \<Rightarrow> None
           | Some (e, a1) \<Rightarrow>
               (case cur a1 of
                  None \<Rightarrow> loop r off a1
                | Some b \<Rightarrow>
                    if e = None
                    then loop r (off - int (length (buffer_rest b)))
                           (a1\<lparr>cur := Some (b\<lparr>offset := length (buf b)\<rparr>)\<rparr>)
                    else loop r off a1))) = Some y"
    show "r = rd \<longrightarrow> P off a y"
    proof
      assume r: "r = rd"
      show "P off a y"
      proof (cases "cur a")
        case None
        with body base [of a off] show ?thesis by auto
      next
        case (Some b)
        with body obtain e a1 where f: "fill rd a = Some (e, a1)"
          by (auto simp: r split: option.splits)
        show ?thesis
        proof (cases e)
          case None
          with f fill_cur [of rd a a1] obtain b1 where c: "cur a1 = Some b1" by auto
          with body Some f None r
          have "loop rd (off - int (length (buffer_rest b1)))
                  (a1\<lparr>cur := Some (b1\<lparr>offset := length (buf b1)\<rparr>)\<rparr>) = Some y"
            by simp
          from IH [OF this] have "P (off - int (length (buffer_rest b1)))
                  (a1\<lparr>cur := Some (b1\<lparr>offset := length (buf b1)\<rparr>)\<rparr>) y" by simp
          from step [OF Some _ c this] f None show ?thesis by simp
        next
          case (Some e')
          with f fill_fail [of rd a e' a1] have c: "cur a1 = None" by simp
          with body \<open>cur a = Some b\<close> f r have "loop rd off a1 = Some y" by simp
          from IH [OF this] have "P off a1 y" by simp
          from fail [OF \<open>cur a = Some b\<close> _ this] f Some show ?thesis by simp
        qed
      qed
    qed
  qed
  then show ?thesis by simp
qed



lemma fetch_step_exited: "exited a \<Longrightarrow> fetch_step rd a = a"
  by (simp add: fetch_step_def)

lemma funpow_fetch_exited: "exited a \<Longrightarrow> (fetch_step rd ^^ k) a = a"
  by (induction k) (simp_all add: fetch_step_exited)








subsection \<open>Fetching through \<^verbatim>\<open>readerat.Read\<close>\<close>

lemma readerat_fetch_offsets:
  "set (snd (inp a)) \<subseteq> {0} \<Longrightarrow> length (snd (inp a)) = length (ready a) \<Longrightarrow>
   set (snd (inp (fetch_step (readerat_Read (recording ra)) a))) \<subseteq> {0} \<and>
   length (snd (inp (fetch_step (readerat_Read (recording ra)) a))) =
     length (ready (fetch_step (readerat_Read (recording ra)) a))"
  by (auto simp: fetch_step_def buffer_read_def readerat_Read_def recording_def
           split: list.splits prod.splits pull.splits if_splits)

lemma readerat_funpow_offsets:
  "set (snd (inp a)) \<subseteq> {0} \<Longrightarrow> length (snd (inp a)) = length (ready a) \<Longrightarrow>
   set (snd (inp ((fetch_step (readerat_Read (recording ra)) ^^ k) a))) \<subseteq> {0} \<and>
   length (snd (inp ((fetch_step (readerat_Read (recording ra)) ^^ k) a))) =
     length (ready ((fetch_step (readerat_Read (recording ra)) ^^ k) a))"
proof (induction k)
  case 0
  then show ?case by simp
next
  case (Suc k)
  from readerat_fetch_offsets [OF Suc.IH [OF Suc.prems, THEN conjunct1]
      Suc.IH [OF Suc.prems, THEN conjunct2], of ra]
  show ?case by simp
qed

lemma bytes_fetch_chunks:
  "\<forall>b \<in> set (ready a). buf b = take (bsize b) B \<Longrightarrow>
   \<forall>b \<in> set (reuse a). bsize b = sz \<Longrightarrow>
   \<forall>b \<in> set (ready a). bsize b = sz \<Longrightarrow> inp a = B \<Longrightarrow>
   (\<forall>b \<in> set (ready (fetch_step (readerat_Read bytesReader_ReadAt) a)). buf b = take (bsize b) B) \<and>
   (\<forall>b \<in> set (reuse (fetch_step (readerat_Read bytesReader_ReadAt) a)). bsize b = sz) \<and>
   (\<forall>b \<in> set (ready (fetch_step (readerat_Read bytesReader_ReadAt) a)). bsize b = sz) \<and>
   inp (fetch_step (readerat_Read bytesReader_ReadAt) a) = B"
  by (auto simp: fetch_step_def buffer_read_def readerat_Read_def bytesReader_ReadAt_def
           split: list.splits prod.splits pull.splits if_splits)

lemma bytes_funpow_chunks:
  "(\<forall>b \<in> set (ready ((fetch_step (readerat_Read bytesReader_ReadAt) ^^ k) (init a0 B n sz))).
      buf b = take (bsize b) B) \<and>
   (\<forall>b \<in> set (reuse ((fetch_step (readerat_Read bytesReader_ReadAt) ^^ k) (init a0 B n sz))).
      bsize b = sz) \<and>
   (\<forall>b \<in> set (ready ((fetch_step (readerat_Read bytesReader_ReadAt) ^^ k) (init a0 B n sz))).
      bsize b = sz) \<and>
   inp ((fetch_step (readerat_Read bytesReader_ReadAt) ^^ k) (init a0 B n sz)) = B"
proof (induction k)
  case 0
  then show ?case by (simp add: init_def newBuffer_def)
next
  case (Suc k)
  from bytes_fetch_chunks [OF Suc.IH [THEN conjunct1] Suc.IH [THEN conjunct2, THEN conjunct1]
      Suc.IH [THEN conjunct2, THEN conjunct2, THEN conjunct1]
      Suc.IH [THEN conjunct2, THEN conjunct2, THEN conjunct2]]
  show ?case by simp
qed

subsection \<open>No operation but \<^verbatim>\<open>Close\<close> touches the closer\<close>

lemma fetch_step_release: "release (fetch_step rd a) = release a"
  by (auto simp: fetch_step_def release_def split: list.splits prod.splits)

lemma funpow_fetch_release: "release ((fetch_step rd ^^ k) a) = release a"
  by (induction k) (simp_all add: fetch_step_release)

lemma stop_release: "release (stop rd k a) = release a"
  using funpow_fetch_release [where rd = rd and k = k and a = a]
  by (simp add: stop_def release_def)

lemma recv_ready_release: "recv_ready rd a = Some (e, a1) \<Longrightarrow> release a1 = release a"
  using fetch_step_release [of rd a]
  by (auto simp: recv_ready_def release_def Let_def split: list.splits if_splits)

lemma fill_release: "fill rd a = Some (e, a1) \<Longrightarrow> release a1 = release a"
  by (auto simp: fill_def release_def dest!: recv_ready_release split: if_splits option.splits)

lemma Read_release: "Read rd a p = Some (r, a1) \<Longrightarrow> release a1 = release a"
  by (auto simp: Read_def release_def Let_def dest!: fill_release
           split: if_splits option.splits prod.splits)

lemma WriteTo_loop_release:
  assumes "WriteTo_loop rd wr n a w = Some y"
  shows "release (fst (snd y)) = release a"
  apply (rule WriteTo_loop.raw_induct
      [where P = "\<lambda>rd wr n a w y. release (fst (snd y)) = release a", OF _ assms])
  apply (clarsimp split: option.splits prod.splits if_splits dest!: fill_release)
       apply (auto simp: release_def)
  done

lemma WriteTo_release: "WriteTo rd wr a w = Some (r, a1, w1) \<Longrightarrow> release a1 = release a"
  using WriteTo_loop_release [of rd wr 0 a w "(r, a1, w1)"]
  by (auto simp: WriteTo_def split: if_splits)

lemma seek_drain_release:
  assumes "seek_drain rd off a = Some y"
  shows "release (snd y) = release a"
  by (rule seek_drain.raw_induct
      [where P = "\<lambda>rd off a y. release (snd y) = release a", OF _ assms])
    (fastforce simp: release_def dest!: fill_release
      split: option.splits prod.splits if_splits)

lemma Seek_release: "Seek rd sk k a off wh = Some (r, a1) \<Longrightarrow> release a1 = release a"
  using stop_release [of rd k a]
  by (auto simp: Seek_def release_def init_def dest!: seek_drain_release
           split: if_splits option.splits prod.splits)

lemma Close_release_None:
  "closer a = None \<Longrightarrow> fst (Close rd k a) = None \<and> release (snd (Close rd k a)) = release a"
  using stop_release [of rd k a]
  by (auto simp: Close_def release_def Let_def split: option.splits)

lemma Close_closer: "closer (snd (Close rd k a)) = None"
  using stop_release [of rd k a]
  by (auto simp: Close_def release_def Let_def split: option.splits)

lemma Close_closed: "closed (snd (Close rd k a)) \<le> closed a + 1"
  using stop_release [of rd k a]
  by (auto simp: Close_def release_def Let_def split: option.splits)

lemma do_call_release:
  "closer a = None \<Longrightarrow> do_call rd sk wr c (a, w) = Some (a', w') \<Longrightarrow> release a' = release a"
  using Close_release_None [of a rd]
  by (cases c)
     (auto simp: do_call_def fetch_step_release dest: Read_release WriteTo_release Seek_release
           split: option.splits prod.splits)

lemma run_release:
  "closer a = None \<Longrightarrow> run rd sk wr cs (a, w) = Some (a', w') \<Longrightarrow> release a' = release a"
proof (induction cs arbitrary: a w)
  case Nil
  then show ?case by simp
next
  case (Cons c cs)
  then obtain a1 w1 where s: "do_call rd sk wr c (a, w) = Some (a1, w1)"
    and r: "run rd sk wr cs (a1, w1) = Some (a', w')"
    by (auto split: option.splits)
  from do_call_release [OF Cons.prems(1) s] have "release a1 = release a" .
  moreover from this Cons.prems(1) have "closer a1 = None" by (simp add: release_def)
  ultimately show ?case using Cons.IH [OF _ r] by simp
qed

section \<open>A source that returns normally\<close>

text \<open>
  For a source that never panics and never reports more bytes than it was asked
  for, a stream with at least one buffer delivers the source's bytes: whatever
  the sizes of the consumer's buffers and whatever the goroutine does in between,
  every \<^verbatim>\<open>Read\<close> returns, the bytes delivered up to the first error are exactly the
  bytes that direct calls obtain from the source up to its first error, and that
  error is the one returned.  Before it, the bytes delivered and the bytes still
  buffered are together what the source has produced so far.
\<close>

lemma direct_extend:
  "direct rd sz k u0 = (X, None, u) \<Longrightarrow> rd u sz = (Pulled bs e, u') \<Longrightarrow>
   direct rd sz (Suc k) u0 = (X @ bs, e, u')"
proof (induction k arbitrary: u0 X)
  case 0
  then show ?case by (cases e) auto
next
  case (Suc k)
  obtain r u1 where r: "rd u0 sz = (r, u1)" by (cases "rd u0 sz")
  show ?case
  proof (cases r)
    case (Panicked m)
    with Suc.prems(1) r show ?thesis by simp
  next
    case (Pulled bs0 e0)
    show ?thesis
    proof (cases e0)
      case (Some x)
      with Suc.prems(1) r Pulled show ?thesis by simp
    next
      case None
      obtain X1 e1 u2 where d: "direct rd sz k u1 = (X1, e1, u2)"
        by (cases "direct rd sz k u1")
      with Suc.prems(1) r Pulled None have "X = bs0 @ X1" "e1 = None" "u2 = u" by simp_all
      with d have "direct rd sz k u1 = (X1, None, u)" by simp
      from Suc.IH [OF this Suc.prems(2)] have "direct rd sz (Suc k) u1 = (X1 @ bs, e, u')" .
      with r Pulled None \<open>X = bs0 @ X1\<close> show ?thesis by simp
    qed
  qed
qed

lemma fid_inv_init: "0 < n \<Longrightarrow> fid_inv rd sz u0 n (init a0 u0 n sz) []"
  unfolding fid_inv_def
  apply (simp add: init_def chunks_def pending_def newBuffer_def status_ok_def)
  apply (rule exI [of _ 0])
  apply simp
  done

lemma status_ok_snoc:
  "status_ok es None \<Longrightarrow> status_ok (es @ [e]) e"
  by (cases e) (auto simp: status_ok_def)

lemma fid_inv_fetch:
  assumes wb: "well_behaved rd sz" and inv: "fid_inv rd sz u0 n a D"
  shows "fid_inv rd sz u0 n (fetch_step rd a) D"
proof (cases "exited a \<or> reuse a = []")
  case True
  then have "fetch_step rd a = a" by (auto simp: fetch_step_def)
  with inv show ?thesis by simp
next
  case False
  then obtain b bs where ru: "reuse a = b # bs" and nx: "\<not> exited a"
    by (cases "reuse a") auto
  from inv ru have bsz: "bsize b = sz" by (simp add: fid_inv_def)
  from wb obtain cs e u' where p: "rd (inp a) sz = (Pulled cs e, u')" and len: "length cs \<le> sz"
    unfolding well_behaved_def by blast
  let ?b' = "b\<lparr>berr := e, buf := cs, offset := 0\<rparr>"
  have fs: "fetch_step rd a =
      a\<lparr>reuse := bs, ready := ready a @ [?b'], inp := u', exited := (e \<noteq> None)\<rparr>"
    using ru nx p len bsz by (simp add: fetch_step_def buffer_read_def)
  from inv obtain k st where d: "direct rd sz k u0 = (D @ pending a, st, inp a)"
    and x: "exited a \<longleftrightarrow> st \<noteq> None" and so: "status_ok (map berr (chunks a)) st"
    unfolding fid_inv_def by blast
  from x nx have st: "st = None" by simp
  from direct_extend [OF d [unfolded st] p]
  have d': "direct rd sz (Suc k) u0 = ((D @ pending a) @ cs, e, u')" .
  have ch: "chunks (fetch_step rd a) = chunks a @ [?b']"
    by (simp add: fs chunks_def)
  have pe: "pending (fetch_step rd a) = pending a @ cs"
    by (simp add: pending_def ch buffer_rest_def)
  show ?thesis
    unfolding fid_inv_def
  proof (intro conjI)
    show "err (fetch_step rd a) = None" using inv by (simp add: fetch_step_err fid_inv_def)
    show "\<forall>b\<in>set (ready (fetch_step rd a)). offset b = 0"
      using inv by (simp add: fs fid_inv_def)
    show "\<forall>b\<in>set (reuse (fetch_step rd a)). bsize b = sz"
      using inv ru by (simp add: fs fid_inv_def)
    show "\<forall>b\<in>set (chunks (fetch_step rd a)). bsize b = sz"
      using inv bsz by (auto simp: ch fid_inv_def)
    show "length (reuse (fetch_step rd a)) + length (chunks (fetch_step rd a)) = n"
      using inv ru by (simp add: ch fid_inv_def) (simp add: fs)
    show "\<exists>k st. direct rd sz k u0 = (D @ pending (fetch_step rd a), st, inp (fetch_step rd a)) \<and>
             (exited (fetch_step rd a) \<longleftrightarrow> st \<noteq> None) \<and>
             status_ok (map berr (chunks (fetch_step rd a))) st"
    proof (intro exI conjI)
      have ip: "inp (fetch_step rd a) = u'" by (simp add: fs)
      show "direct rd sz (Suc k) u0 = (D @ pending (fetch_step rd a), e, inp (fetch_step rd a))"
        unfolding pe ip using d' by (simp del: direct.simps)
      show "exited (fetch_step rd a) \<longleftrightarrow> e \<noteq> None" by (simp add: fs)
      show "status_ok (map berr (chunks (fetch_step rd a))) e"
        using status_ok_snoc [OF so [unfolded st], of e] by (simp add: ch)
    qed
  qed
qed

lemma fid_inv_funpow:
  "well_behaved rd sz \<Longrightarrow> fid_inv rd sz u0 n a D \<Longrightarrow> fid_inv rd sz u0 n ((fetch_step rd ^^ j) a) D"
  by (induction j) (simp_all add: fid_inv_fetch)

lemma cur_ok_funpow: "cur_ok ((fetch_step rd ^^ j) a) = cur_ok a"
  by (simp add: cur_ok_def funpow_fetch_cur)

lemma fid_inv_cong:
  assumes "fid_inv rd sz u0 n a D"
    and "err a' = err a" and "set (ready a') \<subseteq> set (ready a)" and "reuse a' = reuse a"
    and "chunks a' = chunks a" and "inp a' = inp a" and "exited a' = exited a"
  shows "fid_inv rd sz u0 n a' D"
  using assms unfolding fid_inv_def pending_def by auto

lemma status_ok_tl: "status_ok (None # es) st \<Longrightarrow> status_ok es st"
  by (cases st; cases es) (auto simp: status_ok_def)

lemma status_ok_Nil: "status_ok [] st \<Longrightarrow> st = None"
  by (cases st) (auto simp: status_ok_def)

lemma status_ok_head:
  "status_ok (Some x # es) st \<Longrightarrow> es = [] \<and> st = Some x"
  by (cases st; cases es) (auto simp: status_ok_def split: if_splits)

lemma fid_inv_recycle:
  assumes inv: "fid_inv rd sz u0 n a D" and ok: "cur_ok a" and c: "cur a = Some b"
    and e: "length (buf b) \<le> offset b"
  shows "fid_inv rd sz u0 n (a\<lparr>reuse := reuse a @ [b], cur := None\<rparr>) D"
proof -
  from ok c e have be: "berr b = None" by (simp add: cur_ok_def)
  have ch: "chunks a = b # ready a" by (simp add: chunks_def c)
  have ch': "chunks (a\<lparr>reuse := reuse a @ [b], cur := None\<rparr>) = ready a" by (simp add: chunks_def)
  have pe: "pending (a\<lparr>reuse := reuse a @ [b], cur := None\<rparr>) = pending a"
    using e by (simp add: pending_def ch ch' buffer_rest_def)
  from inv obtain k st where d: "direct rd sz k u0 = (D @ pending a, st, inp a)"
    and x: "exited a \<longleftrightarrow> st \<noteq> None" and so: "status_ok (map berr (chunks a)) st"
    unfolding fid_inv_def by blast
  from so be have so': "status_ok (map berr (ready a)) st"
    by (simp add: ch status_ok_tl)
  show ?thesis
    unfolding fid_inv_def pe ch'
    using inv d x so' by (auto simp: fid_inv_def ch)
qed

lemma fetch_step_wb:
  assumes "well_behaved rd sz" and "\<not> exited a" and "reuse a = b # bs" and "bsize b = sz"
  shows "\<exists>cs e u'. fetch_step rd a =
      a\<lparr>reuse := bs, ready := ready a @ [b\<lparr>berr := e, buf := cs, offset := 0\<rparr>],
        inp := u', exited := (e \<noteq> None)\<rparr>"
proof -
  from assms(1) obtain cs e u' where "rd (inp a) sz = (Pulled cs e, u')" "length cs \<le> sz"
    unfolding well_behaved_def by blast
  with assms(2-4) have "fetch_step rd a =
      a\<lparr>reuse := bs, ready := ready a @ [b\<lparr>berr := e, buf := cs, offset := 0\<rparr>],
        inp := u', exited := (e \<noteq> None)\<rparr>"
    by (simp add: fetch_step_def buffer_read_def)
  then show ?thesis by blast
qed

lemma fid_inv_recv:
  assumes wb: "well_behaved rd sz" and inv: "fid_inv rd sz u0 n a D" and c: "cur a = None"
    and n: "0 < n"
  shows "\<exists>a1 b. recv_ready rd a = Some (None, a1) \<and> cur a1 = Some b \<and>
                 fid_inv rd sz u0 n a1 D"
proof (cases "ready a")
  case (Cons b bs)
  then have r: "recv_ready rd a = Some (None, a\<lparr>ready := bs, cur := Some b\<rparr>)"
    by (simp add: recv_ready_def)
  have "fid_inv rd sz u0 n (a\<lparr>ready := bs, cur := Some b\<rparr>) D"
    by (rule fid_inv_cong [OF inv]) (auto simp: chunks_def c Cons)
  with r show ?thesis by auto
next
  case Nil
  with c have ch: "chunks a = []" by (simp add: chunks_def)
  from inv obtain k st where x: "exited a \<longleftrightarrow> st \<noteq> None"
    and so: "status_ok (map berr (chunks a)) st"
    unfolding fid_inv_def by blast
  from so ch have "st = None" by (simp add: status_ok_Nil)
  with x have nx: "\<not> exited a" by simp
  from inv ch n have "length (reuse a) = n" by (simp add: fid_inv_def)
  with n obtain b bs where ru: "reuse a = b # bs" by (cases "reuse a") auto
  from inv ru have bsz: "bsize b = sz" by (simp add: fid_inv_def)
  from fetch_step_wb [OF wb nx ru bsz] obtain cs e u' where fs: "fetch_step rd a =
      a\<lparr>reuse := bs, ready := ready a @ [b\<lparr>berr := e, buf := cs, offset := 0\<rparr>],
        inp := u', exited := (e \<noteq> None)\<rparr>" by blast
  let ?b' = "b\<lparr>berr := e, buf := cs, offset := 0\<rparr>"
  have rf: "ready (fetch_step rd a) = [?b']" by (simp add: fs Nil)
  have cf: "cur (fetch_step rd a) = None" by (simp add: fetch_step_cur c)
  have r: "recv_ready rd a = Some (None, (fetch_step rd a)\<lparr>ready := [], cur := Some ?b'\<rparr>)"
    using Nil nx ru rf by (simp add: recv_ready_def)
  have "fid_inv rd sz u0 n ((fetch_step rd a)\<lparr>ready := [], cur := Some ?b'\<rparr>) D"
    by (rule fid_inv_cong [OF fid_inv_fetch [OF wb inv]]) (simp_all add: chunks_def rf cf)
  with r show ?thesis by auto
qed

lemma fid_inv_fill:
  assumes wb: "well_behaved rd sz" and inv: "fid_inv rd sz u0 n a D" and ok: "cur_ok a"
    and n: "0 < n"
  shows "\<exists>a1 b. fill rd a = Some (None, a1) \<and> cur a1 = Some b \<and> fid_inv rd sz u0 n a1 D"
proof (cases "cur a")
  case None
  with fid_inv_recv [OF wb inv None n] show ?thesis
    by (simp add: fill_def isEmpty_def)
next
  case (Some b)
  show ?thesis
  proof (cases "length (buf b) \<le> offset b")
    case True
    have c': "cur (a\<lparr>reuse := reuse a @ [b], cur := None\<rparr>) = None" by simp
    from fid_inv_recv [OF wb fid_inv_recycle [OF inv ok Some True] c' n] Some True
    show ?thesis by (simp add: fill_def isEmpty_def)
  next
    case False
    with Some inv show ?thesis by (simp add: fill_def isEmpty_def)
  qed
qed

lemma fid_inv_Read:
  assumes wb: "well_behaved rd sz" and inv: "fid_inv rd sz u0 n a D" and ok: "cur_ok a"
    and n: "0 < n"
  shows "\<exists>cnt out e a'. Read rd a p = Some ((cnt, out, e), a') \<and> cnt = length out \<and>
           (e = None \<longrightarrow> fid_inv rd sz u0 n a' (D @ out) \<and> cur_ok a') \<and>
           (\<forall>x. e = Some x \<longrightarrow> (\<exists>k. direct rd sz k u0 = (D @ out, Some x, inp a')))"
proof -
  from fid_inv_fill [OF wb inv ok n] obtain a1 b where
    f: "fill rd a = Some (None, a1)" and c: "cur a1 = Some b"
    and inv1: "fid_inv rd sz u0 n a1 D" by blast
  from inv have e0: "err a = None" by (simp add: fid_inv_def)
  from inv1 have e1: "err a1 = None" by (simp add: fid_inv_def)
  define m where "m = min p (length (buffer_rest b))"
  define out where "out = take m (buffer_rest b)"
  define b' where "b' = inc b m"
  define R where "R = concat (map buffer_rest (ready a1))"
  have ch1: "chunks a1 = b # ready a1" by (simp add: chunks_def c)
  have pe1: "pending a1 = buffer_rest b @ R" by (simp add: pending_def ch1 R_def)
  have rest': "buffer_rest b' = drop m (buffer_rest b)"
    by (simp add: b'_def inc_def buffer_rest_def add.commute)
  have split: "buffer_rest b = out @ buffer_rest b'"
    by (simp add: out_def rest')
  have lo: "length out = m" by (simp add: out_def m_def)
  from inv1 obtain k st where d: "direct rd sz k u0 = (D @ pending a1, st, inp a1)"
    and x: "exited a1 \<longleftrightarrow> st \<noteq> None" and so: "status_ok (map berr (chunks a1)) st"
    unfolding fid_inv_def by blast
  have step: "fid_inv rd sz u0 n (a1\<lparr>cur := Some b'\<rparr>) (D @ out)"
  proof -
    have ch': "chunks (a1\<lparr>cur := Some b'\<rparr>) = b' # ready a1" by (simp add: chunks_def)
    have pe': "pending (a1\<lparr>cur := Some b'\<rparr>) = buffer_rest b' @ R"
      by (simp add: pending_def ch' R_def)
    have dd: "D @ pending a1 = (D @ out) @ pending (a1\<lparr>cur := Some b'\<rparr>)"
      by (simp add: pe1 pe' split)
    have bb: "berr b' = berr b" "bsize b' = bsize b" by (simp_all add: b'_def inc_def)
    show ?thesis
      unfolding fid_inv_def
    proof (intro conjI)
      show "\<exists>k st. direct rd sz k u0 =
              ((D @ out) @ pending (a1\<lparr>cur := Some b'\<rparr>), st, inp (a1\<lparr>cur := Some b'\<rparr>)) \<and>
              (exited (a1\<lparr>cur := Some b'\<rparr>) \<longleftrightarrow> st \<noteq> None) \<and>
              status_ok (map berr (chunks (a1\<lparr>cur := Some b'\<rparr>))) st"
        using d x so unfolding dd by (intro exI [of _ k] exI [of _ st]) (simp add: ch' ch1 bb)
    qed (use inv1 in \<open>auto simp: fid_inv_def ch' ch1 bb\<close>)
  qed
  show ?thesis
  proof (cases "isEmpty (Some b')")
    case False
    then have r: "Read rd a p = Some ((m, out, None), a1\<lparr>cur := Some b'\<rparr>)"
      using e0 f c by (simp add: Read_def Let_def m_def out_def b'_def)
    have "cur_ok (a1\<lparr>cur := Some b'\<rparr>)"
      using False by (simp add: cur_ok_def isEmpty_def)
    with r step lo show ?thesis by simp
  next
    case True
    then have r: "Read rd a p = Some ((m, out, berr b'), a1\<lparr>cur := Some b', err := berr b'\<rparr>)"
      using e0 f c by (simp add: Read_def Let_def m_def out_def b'_def)
    have bb: "berr b' = berr b" by (simp add: b'_def inc_def)
    show ?thesis
    proof (cases "berr b")
      case None
      with e1 have "a1\<lparr>cur := Some b', err := berr b'\<rparr> = a1\<lparr>cur := Some b'\<rparr>"
        by (simp add: bb)
      moreover have "cur_ok (a1\<lparr>cur := Some b'\<rparr>)"
        using None by (simp add: cur_ok_def bb)
      ultimately show ?thesis using r step lo None bb by simp
    next
      case (Some y)
      from so have "status_ok (Some y # map berr (ready a1)) st" by (simp add: ch1 Some)
      from status_ok_head [OF this] have re: "ready a1 = []" and st: "st = Some y" by simp_all
      from True have "buffer_rest b' = []" by (simp add: isEmpty_def buffer_rest_def)
      with split re have "pending a1 = out" by (simp add: pe1 R_def)
      with d st have "direct rd sz k u0 = (D @ out, Some y, inp a1)" by simp
      with r lo Some bb show ?thesis by auto
    qed
  qed
qed

lemma fid_inv_drain:
  assumes wb: "well_behaved rd sz" and n: "0 < n"
  shows "fid_inv rd sz u0 n a D \<Longrightarrow> cur_ok a \<Longrightarrow>
         \<exists>out e a'. drain rd ps a = Some (out, e, a') \<and>
           (case e of
              Some x \<Rightarrow> (\<exists>k. direct rd sz k u0 = (D @ out, Some x, inp a'))
            | None \<Rightarrow> fid_inv rd sz u0 n a' (D @ out))"
proof (induction ps arbitrary: a D)
  case Nil
  then show ?case by simp
next
  case (Cons jp ps)
  obtain j p where jp: "jp = (j, p)" by (cases jp)
  from fid_inv_funpow [OF wb Cons.prems(1), of j]
  have i: "fid_inv rd sz u0 n ((fetch_step rd ^^ j) a) D" .
  from Cons.prems(2) have o: "cur_ok ((fetch_step rd ^^ j) a)" by (simp add: cur_ok_funpow)
  from fid_inv_Read [OF wb i o n, of p] obtain cnt out e a' where
    r: "Read rd ((fetch_step rd ^^ j) a) p = Some ((cnt, out, e), a')"
    and ok: "e = None \<longrightarrow> fid_inv rd sz u0 n a' (D @ out) \<and> cur_ok a'"
    and tm: "\<forall>x. e = Some x \<longrightarrow> (\<exists>k. direct rd sz k u0 = (D @ out, Some x, inp a'))"
    by blast
  show ?case
  proof (cases e)
    case (Some x)
    with r tm jp show ?thesis by simp
  next
    case None
    with ok have "fid_inv rd sz u0 n a' (D @ out)" "cur_ok a'" by simp_all
    from Cons.IH [OF this] obtain outs e' a'' where
      dr: "drain rd ps a' = Some (outs, e', a'')"
      and res: "case e' of
              Some x \<Rightarrow> (\<exists>k. direct rd sz k u0 = ((D @ out) @ outs, Some x, inp a''))
            | None \<Rightarrow> fid_inv rd sz u0 n a'' ((D @ out) @ outs)"
      by blast
    from r None dr jp have "drain rd (jp # ps) a = Some (out @ outs, e', a'')" by simp
    with res show ?thesis by (cases e') auto
  qed
qed

lemma fidelity:
  assumes "well_behaved rd sz" and "0 < n"
  shows "\<exists>out e a'. drain rd ps (init a0 u0 n sz) = Some (out, e, a') \<and>
           (case e of
              Some x \<Rightarrow> (\<exists>k. direct rd sz k u0 = (out, Some x, inp a'))
            | None \<Rightarrow> (\<exists>k st. direct rd sz k u0 = (out @ pending a', st, inp a')))"
proof -
  have c: "cur_ok (init a0 u0 n sz)" by (simp add: cur_ok_def init_def)
  from fid_inv_drain [OF assms fid_inv_init [OF assms(2)] c, where ps = ps]
  obtain out e a' where d: "drain rd ps (init a0 u0 n sz) = Some (out, e, a')"
    and r: "case e of
              Some x \<Rightarrow> (\<exists>k. direct rd sz k u0 = ([] @ out, Some x, inp a'))
            | None \<Rightarrow> fid_inv rd sz u0 n a' ([] @ out)"
    by blast
  show ?thesis
  proof (cases e)
    case None
    with r have "fid_inv rd sz u0 n a' out" by simp
    then obtain k st where "direct rd sz k u0 = (out @ pending a', st, inp a')"
      unfolding fid_inv_def by blast
    with d None show ?thesis by auto
  next
    case (Some x)
    with r d show ?thesis by auto
  qed
qed

subsection \<open>The loop of Seek\<close>

text \<open>
  On a stopped pipeline the loop of \<^verbatim>\<open>Seek\<close> for \<^verbatim>\<open>io.SeekCurrent\<close> always ends; when
  a chunk is current it subtracts the number of all unread buffered bytes, and
  when none is current it subtracts nothing.  A successful \<^verbatim>\<open>Seek\<close> from the start
  or the end leaves the pipeline that \<^verbatim>\<open>init\<close> builds over the repositioned source.
\<close>

lemma fill_pending:
  assumes "exited a" and "fill rd a = Some (None, a1)"
  shows "pending a1 = pending a"
proof (cases "isEmpty (cur a)")
  case False
  with assms(2) show ?thesis by (simp add: fill_def)
next
  case True
  show ?thesis
  proof (cases "ready a")
    case Nil
    with assms True show ?thesis
      by (auto simp: fill_def recv_ready_def Let_def split: option.splits if_splits)
  next
    case (Cons b bs)
    with assms True show ?thesis
      by (auto simp: fill_def recv_ready_def pending_def chunks_def isEmpty_def buffer_rest_def
               split: option.splits)
  qed
qed

lemma fill_fail_pending:
  assumes "fill rd a = Some (Some e, a1)"
  shows "pending a = []"
  using assms
  by (auto simp: fill_def recv_ready_def pending_def chunks_def isEmpty_def buffer_rest_def Let_def
           split: option.splits if_splits list.splits)

lemma seek_drain_offset:
  assumes "seek_drain rd off a = Some y" and "exited a"
  shows "fst y = off - (if cur a = None then 0 else int (length (pending a)))"
  using assms
proof (induction rule: seek_drain_cases)
  case (Done off a)
  then show ?case by simp
next
  case (Failed off a b e a1 y)
  from fill_fail [OF Failed(2)] have c: "cur a1 = None" by simp
  from fill_exited [OF Failed(4) Failed(2)] have "exited a1" by simp
  with Failed(3) c have "fst y = off" by simp
  with fill_fail_pending [OF Failed(2)] Failed(1) show ?case by simp
next
  case (Drained off a b a1 b1 y)
  let ?a2 = "a1\<lparr>cur := Some (b1\<lparr>offset := length (buf b1)\<rparr>)\<rparr>"
  from fill_exited [OF Drained(5) Drained(2)] have x: "exited ?a2" by simp
  have p1: "pending a1 = buffer_rest b1 @ concat (map buffer_rest (ready a1))"
    by (simp add: pending_def chunks_def Drained(3))
  have p2: "pending ?a2 = concat (map buffer_rest (ready a1))"
    by (simp add: pending_def chunks_def buffer_rest_def)
  from Drained(4) [OF x] have "fst y = off - int (length (buffer_rest b1)) - int (length (pending ?a2))"
    by simp
  with p1 p2 fill_pending [OF Drained(5) Drained(2)] Drained(1) show ?case by simp
qed

lemma stop_pending: "exited a \<Longrightarrow> pending (stop rd k a) = pending a"
  by (simp add: stop_def funpow_fetch_exited pending_def chunks_def)

lemma stop_sizes: "buffers (stop rd k a) = buffers a \<and> size_r (stop rd k a) = size_r a"
proof -
  have "buffers (fetch_step rd a) = buffers a \<and> size_r (fetch_step rd a) = size_r a" for a
    by (auto simp: fetch_step_def split: list.splits prod.splits)
  then have "buffers ((fetch_step rd ^^ k) a) = buffers a \<and>
             size_r ((fetch_step rd ^^ k) a) = size_r a"
    by (induction k) simp_all
  then show ?thesis by (simp add: stop_def)
qed

lemma Seek_absolute_success:
  assumes "wh \<noteq> SeekCurrent" and "sk (inp (stop rd k a)) off wh = ((res, None), u')"
  shows "Seek rd sk k a off wh = Some ((res, None), init (stop rd k a) u' (buffers a) (size_r a))"
  using assms by (simp add: Seek_def stop_sizes)

lemma seek_drain_total:
  "exited a \<Longrightarrow> \<exists>y. seek_drain rd off a = Some y"
proof (induction "drain_measure a" arbitrary: a off rule: less_induct)
  case less
  show ?case
  proof (cases "cur a")
    case None
    then show ?thesis by (subst seek_drain.simps) simp
  next
    case (Some b)
    show ?thesis
    proof (cases "length (buf b) \<le> offset b")
      case False
      let ?a2 = "a\<lparr>cur := Some (b\<lparr>offset := length (buf b)\<rparr>)\<rparr>"
      from Some False have f: "fill rd a = Some (None, a)" by (simp add: fill_def isEmpty_def)
      have lt: "drain_measure ?a2 < drain_measure a"
        using Some False by (simp add: drain_measure_def)
      have "exited ?a2" using less.prems by simp
      from less.hyps [OF lt this, of "off - int (length (buffer_rest b))"]
      obtain y where "seek_drain rd (off - int (length (buffer_rest b))) ?a2 = Some y"
        by blast
      then show ?thesis
        by (subst seek_drain.simps) (simp add: Some f)
    next
      case True
      show ?thesis
      proof (cases "ready a")
        case Nil
        obtain a2 where a2: "a2 = (if err a = None
            then a\<lparr>reuse := reuse a @ [b], cur := None, err := Some ReadAfterClose\<rparr>
            else a\<lparr>reuse := reuse a @ [b], cur := None\<rparr>)" by blast
        from Some True Nil less.prems
        have f: "fill rd a = Some (err a2, a2)"
          by (simp add: fill_def isEmpty_def recv_ready_def Let_def a2)
        have c: "cur a2 = None" by (simp add: a2)
        have "seek_drain rd off a2 = Some (off, a2)"
          by (subst seek_drain.simps) (simp only: c option.case)
        then show ?thesis
          by (subst seek_drain.simps) (simp add: Some f c)
      next
        case (Cons b1 bs)
        let ?a1 = "a\<lparr>reuse := reuse a @ [b], cur := None\<rparr>\<lparr>ready := bs, cur := Some b1\<rparr>"
        let ?a2 = "?a1\<lparr>cur := Some (b1\<lparr>offset := length (buf b1)\<rparr>)\<rparr>"
        from Some True Cons have f: "fill rd a = Some (None, ?a1)"
          by (simp add: fill_def isEmpty_def recv_ready_def)
        have lt: "drain_measure ?a2 < drain_measure a"
          using Some True Cons by (simp add: drain_measure_def)
        have "exited ?a2" using less.prems by simp
        from less.hyps [OF lt this, of "off - int (length (buffer_rest b1))"]
        obtain y where "seek_drain rd (off - int (length (buffer_rest b1))) ?a2 = Some y"
          by blast
        then show ?thesis
          by (subst seek_drain.simps) (simp add: Some f)
      qed
    qed
  qed
qed

lemma Seek_total: "\<exists>r a'. Seek rd sk k a off wh = Some (r, a')"
proof -
  from seek_drain_total [OF stop_exited, where rd = rd and off = off]
  obtain y where "seek_drain rd off (stop rd k a) = Some y" by blast
  then show ?thesis
    by (cases y) (auto simp: Seek_def split: prod.splits option.splits)
qed

section \<open>Close\<close>

text \<open>
  C7 (close idempotence, at-most-once release).  The first \<^verbatim>\<open>Close\<close> of a stream
  in any state leaves no closer behind and has called the closer at most once.
  After it, whatever calls follow (reads, bulk drains, seeks, further closes,
  steps of the goroutine), a later \<^verbatim>\<open>Close\<close> returns nil and the number of calls
  made to the closer is still what it was after the first \<^verbatim>\<open>Close\<close>.
\<close>

theorem Close_idempotent:
  "closer (snd (Close rd k a)) = None \<and> closed (snd (Close rd k a)) \<le> closed a + 1 \<and>
   (run rd sk wr cs (snd (Close rd k a), w) = Some (a', w') \<longrightarrow>
      fst (Close rd k' a') = None \<and>
      closed (snd (Close rd k' a')) = closed (snd (Close rd k a)))"
proof -
  have c: "closer (snd (Close rd k a)) = None" by (rule Close_closer)
  {
    assume r: "run rd sk wr cs (snd (Close rd k a), w) = Some (a', w')"
    from run_release [OF c r] have e: "release a' = release (snd (Close rd k a))" .
    with c have "closer a' = None" by (simp add: release_def)
    from Close_release_None [OF this, of rd k'] e
    have "fst (Close rd k' a') = None \<and>
      closed (snd (Close rd k' a')) = closed (snd (Close rd k a))"
      by (simp add: release_def)
  }
  with c Close_closed [of rd k a] show ?thesis by blast
qed

theorem Close_idempotent_witness:
  "run SeekerBuffer_Read SeekerBuffer_Seek bytesBuffer_Write [CallRead 4, CallClose 0, Fetch]
     (snd (Close SeekerBuffer_Read 1 closer_stream), []) =
   Some (\<lparr>inp = \<lparr>Bytes = [84, 101, 115, 116, 98, 117, 102, 102, 101, 114], pos = 4\<rparr>,
           closer = None, closed = 1, err = Some ReadAfterClose, ready = [], reuse = [],
           exited = True,
           cur = Some \<lparr>berr = None, buf = [84, 101, 115, 116], offset = 4, bsize = 4\<rparr>,
           size_r = 4, buffers = 1\<rparr>, []) \<and>
   fst (Close SeekerBuffer_Read 0
     \<lparr>inp = \<lparr>Bytes = [84, 101, 115, 116, 98, 117, 102, 102, 101, 114], pos = 4\<rparr>,
      closer = None, closed = 1, err = Some ReadAfterClose, ready = [], reuse = [],
      exited = True,
      cur = Some \<lparr>berr = None, buf = [84, 101, 115, 116], offset = 4, bsize = 4\<rparr>,
      size_r = 4, buffers = 1\<rparr>) = None \<and>
   closed (snd (Close SeekerBuffer_Read 0
     \<lparr>inp = \<lparr>Bytes = [84, 101, 115, 116, 98, 117, 102, 102, 101, 114], pos = 4\<rparr>,
      closer = None, closed = 1, err = Some ReadAfterClose, ready = [], reuse = [],
      exited = True,
      cur = Some \<lparr>berr = None, buf = [84, 101, 115, 116], offset = 4, bsize = 4\<rparr>,
      size_r = 4, buffers = 1\<rparr>)) = 1"
proof -
  have r: "run SeekerBuffer_Read SeekerBuffer_Seek bytesBuffer_Write [CallRead 4, CallClose 0, Fetch]
     (snd (Close SeekerBuffer_Read 1 closer_stream), []) =
   Some (\<lparr>inp = \<lparr>Bytes = [84, 101, 115, 116, 98, 117, 102, 102, 101, 114], pos = 4\<rparr>,
           closer = None, closed = 1, err = Some ReadAfterClose, ready = [], reuse = [],
           exited = True,
           cur = Some \<lparr>berr = None, buf = [84, 101, 115, 116], offset = 4, bsize = 4\<rparr>,
           size_r = 4, buffers = 1\<rparr>, [])"
    by code_simp
  have c: "closed (snd (Close SeekerBuffer_Read 1 closer_stream)) = 1"
    by code_simp
  from Close_idempotent [of SeekerBuffer_Read 1 closer_stream SeekerBuffer_Seek bytesBuffer_Write
      "[CallRead 4, CallClose 0, Fetch]" "[]" _ "[]" 0] r c
  show ?thesis by simp
qed

section \<open>The latched error\<close>



section \<open>Read\<close>

text \<open>
  C3 (short read with trailing status).  When no error is latched and \<^verbatim>\<open>fill\<close>
  succeeds, leaving the chunk \<^verbatim>\<open>b\<close> current, \<^verbatim>\<open>Read\<close> with a buffer of length
  \<^verbatim>\<open>p\<close> copies the first \<^verbatim>\<open>n = min(p, len(b.buf) - b.offset)\<close> unread bytes of the
  chunk and advances its offset by \<^verbatim>\<open>n\<close>.  If that drains the chunk, the chunk's
  status (nil or not) becomes the latched error and is returned with \<^verbatim>\<open>n\<close>;
  otherwise the call returns \<^verbatim>\<open>(n, nil)\<close>.
\<close>

theorem Read_short_read:
  assumes "err a = None" and "fill rd a = Some (None, a1)" and "cur a1 = Some b"
    and "n = min p (length (buf b) - offset b)"
    and "st = (if length (buf b) \<le> offset b + n then berr b else None)"
  shows "Read rd a p =
           Some ((n, take n (drop (offset b) (buf b)), st),
                 a1\<lparr>cur := Some (b\<lparr>offset := offset b + n\<rparr>), err := st\<rparr>)"
proof -
  from fill_err [OF assms(2)] assms(1) have "err a1 = None" by simp
  then have "a1\<lparr>cur := c, err := None\<rparr> = a1\<lparr>cur := c\<rparr>" for c by simp
  with assms show ?thesis
    by (auto simp add: Read_def Let_def buffer_rest_def inc_def isEmpty_def min_def)
qed

theorem Read_short_read_witness:
  "Read scriptReader dataerr_stream 100 =
     Some ((2, [84, 101], Some EOF),
           \<lparr>inp = [], closer = None, closed = 0, err = Some EOF, ready = [], reuse = [],
            exited = True,
            cur = Some \<lparr>berr = Some EOF, buf = [84, 101], offset = 2, bsize = 4\<rparr>,
            size_r = 4, buffers = 1\<rparr>)"
proof -
  have e: "err dataerr_stream = None" by code_simp
  have f: "fill scriptReader dataerr_stream =
     Some (None, \<lparr>inp = [], closer = None, closed = 0, err = None, ready = [], reuse = [],
            exited = True,
            cur = Some \<lparr>berr = Some EOF, buf = [84, 101], offset = 0, bsize = 4\<rparr>,
            size_r = 4, buffers = 1\<rparr>)"
    by code_simp
  from Read_short_read [OF e f _ refl refl, of "\<lparr>berr = Some EOF, buf = [84, 101], offset = 0, bsize = 4\<rparr>" 100]
  show ?thesis by simp
qed

section \<open>WriteTo\<close>

text \<open>
  C4 (bulk drain).  With no error latched \<^verbatim>\<open>WriteTo\<close> is its loop started at a
  total of zero.  Take any iteration of the loop, with running total \<^verbatim>\<open>n\<close>, in
  which \<^verbatim>\<open>fill\<close> succeeds with chunk \<^verbatim>\<open>b\<close> current and the sink answers
  \<^verbatim>\<open>(n2, werr)\<close> to the unread bytes of \<^verbatim>\<open>b\<close>.  If the sink failed, the call returns
  \<^verbatim>\<open>n + n2\<close> and the sink's error at once: the stream is as \<^verbatim>\<open>fill\<close> left it but
  for the advanced offset, so nothing more was fetched.  Otherwise, if the
  chunk's status is \<^verbatim>\<open>io.EOF\<close>, the call returns \<^verbatim>\<open>n + n2\<close> and nil with
  \<^verbatim>\<open>io.EOF\<close> latched; if it is another error, the call returns \<^verbatim>\<open>n + n2\<close> and
  that error, latched too; and with no status the loop goes on with the total
  \<^verbatim>\<open>n + n2\<close>.
\<close>

theorem WriteTo_exits:
  assumes "fill rd a = Some (None, a1)" and "cur a1 = Some b"
    and "wr w (buffer_rest b) = ((n2, werr), w')"
  shows "(err a = None \<longrightarrow> WriteTo rd wr a w = WriteTo_loop rd wr 0 a w) \<and>
         (werr = Some e \<longrightarrow>
            WriteTo_loop rd wr n a w =
              Some ((n + n2, Some e), a1\<lparr>cur := Some (inc b n2)\<rparr>, w')) \<and>
         (werr = None \<and> berr b = Some EOF \<longrightarrow>
            WriteTo_loop rd wr n a w =
              Some ((n + n2, None), a1\<lparr>cur := Some (inc b n2), err := Some EOF\<rparr>, w')) \<and>
         (werr = None \<and> berr b = Some e \<and> e \<noteq> EOF \<longrightarrow>
            WriteTo_loop rd wr n a w =
              Some ((n + n2, Some e), a1\<lparr>cur := Some (inc b n2), err := Some e\<rparr>, w')) \<and>
         (werr = None \<and> berr b = None \<longrightarrow>
            WriteTo_loop rd wr n a w =
              WriteTo_loop rd wr (n + n2) (a1\<lparr>cur := Some (inc b n2)\<rparr>) w')"
proof -
  have 0: "err a = None \<longrightarrow> WriteTo rd wr a w = WriteTo_loop rd wr 0 a w"
    by (simp add: WriteTo_def)
  have 1: "werr = Some e \<longrightarrow>
            WriteTo_loop rd wr n a w =
              Some ((n + n2, Some e), a1\<lparr>cur := Some (inc b n2)\<rparr>, w')"
    by (subst WriteTo_loop.simps) (simp add: assms)
  have 2: "werr = None \<and> berr b = Some EOF \<longrightarrow>
            WriteTo_loop rd wr n a w =
              Some ((n + n2, None), a1\<lparr>cur := Some (inc b n2), err := Some EOF\<rparr>, w')"
    by (subst WriteTo_loop.simps) (simp add: assms)
  have 3: "werr = None \<and> berr b = Some e \<and> e \<noteq> EOF \<longrightarrow>
            WriteTo_loop rd wr n a w =
              Some ((n + n2, Some e), a1\<lparr>cur := Some (inc b n2), err := Some e\<rparr>, w')"
    by (subst WriteTo_loop.simps) (simp add: assms)
  have 4: "werr = None \<and> berr b = None \<longrightarrow>
            WriteTo_loop rd wr n a w =
              WriteTo_loop rd wr (n + n2) (a1\<lparr>cur := Some (inc b n2)\<rparr>) w'"
    by (subst WriteTo_loop.simps) (simp add: assms)
  from 0 1 2 3 4 show ?thesis by blast
qed

theorem WriteTo_exits_witness:
  "WriteTo scriptReader bytesBuffer_Write two_chunk_stream [] =
     Some ((3, None),
       \<lparr>inp = [], closer = None, closed = 0, err = Some EOF, ready = [],
        reuse = [\<lparr>berr = None, buf = [84, 101], offset = 2, bsize = 4\<rparr>],
        exited = True,
        cur = Some \<lparr>berr = Some EOF, buf = [115], offset = 1, bsize = 4\<rparr>,
        size_r = 4, buffers = 2\<rparr>,
       [84, 101, 115]) \<and>
   WriteTo scriptReader failingWriter two_chunk_stream () =
     Some ((0, Some (OtherError ''short write'')),
       \<lparr>inp = [Pulled [115] (Some EOF)], closer = None, closed = 0, err = None, ready = [],
        reuse = [\<lparr>berr = None, buf = [0, 0, 0, 0], offset = 0, bsize = 4\<rparr>],
        exited = False,
        cur = Some \<lparr>berr = None, buf = [84, 101], offset = 0, bsize = 4\<rparr>,
        size_r = 4, buffers = 2\<rparr>,
       ()) \<and>
   WriteTo scriptReader bytesBuffer_Write error_stream [] =
     Some ((1, Some (OtherError ''some error'')),
       \<lparr>inp = [], closer = None, closed = 0, err = Some (OtherError ''some error''),
        ready = [],
        reuse = [\<lparr>berr = None, buf = [0, 0, 0, 0], offset = 0, bsize = 4\<rparr>],
        exited = True,
        cur = Some \<lparr>berr = Some (OtherError ''some error''), buf = [84], offset = 1,
                    bsize = 4\<rparr>,
        size_r = 4, buffers = 2\<rparr>,
       [84])"
proof -
  let ?b1 = "\<lparr>berr = None, buf = [84, 101], offset = 0, bsize = 4\<rparr>"
  let ?a1 = "\<lparr>inp = [Pulled [115] (Some EOF)], closer = None, closed = 0, err = None,
        ready = [],
        reuse = [\<lparr>berr = None, buf = [0, 0, 0, 0], offset = 0, bsize = 4\<rparr>],
        exited = False, cur = Some ?b1, size_r = 4, buffers = 2\<rparr>"
  let ?b2 = "\<lparr>berr = Some EOF, buf = [115], offset = 0, bsize = 4\<rparr>"
  let ?a2 = "\<lparr>inp = [], closer = None, closed = 0, err = None, ready = [],
        reuse = [\<lparr>berr = None, buf = [84, 101], offset = 2, bsize = 4\<rparr>],
        exited = True, cur = Some ?b2, size_r = 4, buffers = 2\<rparr>"
  let ?b3 = "\<lparr>berr = Some (OtherError ''some error''), buf = [84], offset = 0, bsize = 4\<rparr>"
  let ?a3 = "\<lparr>inp = [], closer = None, closed = 0, err = None, ready = [],
        reuse = [\<lparr>berr = None, buf = [0, 0, 0, 0], offset = 0, bsize = 4\<rparr>],
        exited = True, cur = Some ?b3, size_r = 4, buffers = 2\<rparr>"
  have e: "err two_chunk_stream = None" "err error_stream = None" by code_simp+
  have f1: "fill scriptReader two_chunk_stream = Some (None, ?a1)" by code_simp
  have f2: "fill scriptReader (?a1\<lparr>cur := Some (inc ?b1 2)\<rparr>) = Some (None, ?a2)" by code_simp
  have f3: "fill scriptReader error_stream = Some (None, ?a3)" by code_simp
  have w1: "bytesBuffer_Write [] (buffer_rest ?b1) = ((2, None), [84, 101])" by code_simp
  have w2: "bytesBuffer_Write [84, 101] (buffer_rest ?b2) = ((1, None), [84, 101, 115])"
    by code_simp
  have w3: "bytesBuffer_Write [] (buffer_rest ?b3) = ((1, None), [84])" by code_simp
  have w4: "failingWriter () (buffer_rest ?b1) = ((0, Some (OtherError ''short write'')), ())"
    by code_simp
  have c1: "cur ?a1 = Some ?b1" and c2: "cur ?a2 = Some ?b2" and c3: "cur ?a3 = Some ?b3"
    by simp_all
  have A: "WriteTo scriptReader bytesBuffer_Write two_chunk_stream [] =
      WriteTo_loop scriptReader bytesBuffer_Write 2 (?a1\<lparr>cur := Some (inc ?b1 2)\<rparr>) [84, 101]"
    using WriteTo_exits [where wr = bytesBuffer_Write and w = "[]" and b = ?b1 and n = 0,
      OF f1 c1 w1] e by (simp add: numeral_2_eq_2)
  have B: "WriteTo_loop scriptReader bytesBuffer_Write 2 (?a1\<lparr>cur := Some (inc ?b1 2)\<rparr>)
        [84, 101] =
      Some ((3, None), ?a2\<lparr>cur := Some (inc ?b2 1), err := Some EOF\<rparr>, [84, 101, 115])"
    using WriteTo_exits [where wr = bytesBuffer_Write and w = "[84, 101]" and b = ?b2
      and n = 2, OF f2 c2 w2] by simp
  have C: "WriteTo scriptReader failingWriter two_chunk_stream () =
      Some ((0, Some (OtherError ''short write'')), ?a1\<lparr>cur := Some (inc ?b1 0)\<rparr>, ())"
    using WriteTo_exits [where wr = failingWriter and w = "()" and b = ?b1 and n = 0
      and e = "OtherError ''short write''", OF f1 c1 w4] e by simp
  have D: "WriteTo scriptReader bytesBuffer_Write error_stream [] =
      Some ((1, Some (OtherError ''some error'')),
        ?a3\<lparr>cur := Some (inc ?b3 1), err := Some (OtherError ''some error'')\<rparr>, [84])"
    using WriteTo_exits [where wr = bytesBuffer_Write and w = "[]" and b = ?b3 and n = 0
      and e = "OtherError ''some error''", OF f3 c3 w3] e by simp
  from A B C D show ?thesis by (simp add: inc_def)
qed

section \<open>Panics of the source\<close>



section \<open>NewReaderAt\<close>

text \<open>
  C10 (the \<^verbatim>\<open>ReaderAt\<close> adapter always reads at offset 0).  \<^verbatim>\<open>readerat.Read\<close> is
  \<^verbatim>\<open>ReadAt\<close> at offset 0, and \<^verbatim>\<open>NewReaderAt\<close> starts a pipeline of 4 buffers of
  \<^verbatim>\<open>1<<20\<close> bytes over it (and hands nil to its caller).  For a pipeline of any
  number and size of buffers over any \<^verbatim>\<open>ReaderAt\<close>, after any number of iterations
  of the goroutine, every offset that the \<^verbatim>\<open>ReaderAt\<close> was called with is 0, and
  there is one such call for each chunk published.  So over fixed bytes \<^verbatim>\<open>B\<close>
  every published chunk holds the first \<^verbatim>\<open>size\<close> bytes of \<^verbatim>\<open>B\<close>.
\<close>

theorem readerat_offset_zero:
  "readerat_Read ra u p = ra u p 0 \<and>
   NewReaderAt (Some u) = (None, Some (init (empty_reader u None) u 4 (2 ^ 20))) \<and>
   (\<forall>off \<in> set (snd (inp ((fetch_step (readerat_Read (recording ra)) ^^ k)
                              (init a0 (u, []) n sz)))). off = 0) \<and>
   length (snd (inp ((fetch_step (readerat_Read (recording ra)) ^^ k) (init a0 (u, []) n sz)))) =
     length (ready ((fetch_step (readerat_Read (recording ra)) ^^ k) (init a0 (u, []) n sz))) \<and>
   (\<forall>b \<in> set (ready ((fetch_step (readerat_Read bytesReader_ReadAt) ^^ k) (init a1 B n sz))).
      buf b = take sz B)"
proof -
  have 1: "readerat_Read ra u p = ra u p 0" by (simp add: readerat_Read_def)
  have 2: "NewReaderAt (Some u) = (None, Some (init (empty_reader u None) u 4 (2 ^ 20)))"
    by (simp add: NewReaderAt_def NewReader_def NewReaderSize_def)
  have i: "set (snd (inp (init a0 (u, []) n sz))) \<subseteq> {0}"
    "length (snd (inp (init a0 (u, []) n sz))) = length (ready (init a0 (u, []) n sz))"
    by (simp_all add: init_def)
  from readerat_funpow_offsets [OF i, where ra = ra and k = k]
  have 3: "(\<forall>off \<in> set (snd (inp ((fetch_step (readerat_Read (recording ra)) ^^ k)
                              (init a0 (u, []) n sz)))). off = 0) \<and>
   length (snd (inp ((fetch_step (readerat_Read (recording ra)) ^^ k) (init a0 (u, []) n sz)))) =
     length (ready ((fetch_step (readerat_Read (recording ra)) ^^ k) (init a0 (u, []) n sz)))"
    by auto
  from bytes_funpow_chunks [where k = k and ?a0.0 = a1 and B = B and n = n and sz = sz]
  have 4: "\<forall>b \<in> set (ready ((fetch_step (readerat_Read bytesReader_ReadAt) ^^ k) (init a1 B n sz))).
      buf b = take sz B"
    by auto
  from 1 2 3 4 show ?thesis by blast
qed

theorem readerat_offset_zero_witness:
  "snd (inp ((fetch_step (readerat_Read (recording bytesReader_ReadAt)) ^^ 2)
          (init (empty_reader ([1, 2, 3, 4, 5], []) None) ([1, 2, 3, 4, 5], []) 2 3))) = [0, 0] \<and>
   ready ((fetch_step (readerat_Read bytesReader_ReadAt) ^^ 2)
          (init (empty_reader [1, 2, 3, 4, 5] None) [1, 2, 3, 4, 5] 2 3)) =
     [\<lparr>berr = None, buf = [1, 2, 3], offset = 0, bsize = 3\<rparr>,
      \<lparr>berr = None, buf = [1, 2, 3], offset = 0, bsize = 3\<rparr>] \<and>
   buf \<lparr>berr = None, buf = [1, 2, 3], offset = 0, bsize = 3\<rparr> = take 3 [1, 2, 3, 4, 5]"
proof -
  have l: "snd (inp ((fetch_step (readerat_Read (recording bytesReader_ReadAt)) ^^ 2)
          (init (empty_reader ([1, 2, 3, 4, 5], []) None) ([1, 2, 3, 4, 5], []) 2 3))) = [0, 0]"
    by code_simp
  have r: "ready ((fetch_step (readerat_Read bytesReader_ReadAt) ^^ 2)
          (init (empty_reader [1, 2, 3, 4, 5] None) [1, 2, 3, 4, 5] 2 3)) =
     [\<lparr>berr = None, buf = [1, 2, 3], offset = 0, bsize = 3\<rparr>,
      \<lparr>berr = None, buf = [1, 2, 3], offset = 0, bsize = 3\<rparr>]"
    by code_simp
  from readerat_offset_zero [where ra = bytesReader_ReadAt and u = "[1, 2, 3, 4, 5]" and k = 2
      and ?a0.0 = "empty_reader ([1, 2, 3, 4, 5], []) None" and n = 2 and sz = 3
      and ?a1.0 = "empty_reader [1, 2, 3, 4, 5] None" and B = "[1, 2, 3, 4, 5]"] l r
  show ?thesis by simp
qed

section \<open>Seek\<close>

text \<open>
  C5 (reposition correctness).  The loop of \<^verbatim>\<open>Seek\<close> for \<^verbatim>\<open>io.SeekCurrent\<close> runs
  only while \<^verbatim>\<open>a.cur\<close> is non-nil.  Here the goroutine has fetched the first four
  bytes of \<^verbatim>\<open>Testbuffer\<close> into the ready queue, and the consumer, which has read
  nothing, seeks by 0 from its current position: no chunk is current, the four
  buffered bytes are not subtracted, the source is repositioned to 4, and the
  next \<^verbatim>\<open>Read\<close> returns \<^verbatim>\<open>buff\<close> and not \<^verbatim>\<open>Test\<close>.
\<close>

theorem Seek_current_ignores_ready_queue:
  "fetch_step SeekerBuffer_Read seeker_stream =
     \<lparr>inp = \<lparr>Bytes = [84, 101, 115, 116, 98, 117, 102, 102, 101, 114], pos = 4\<rparr>,
      closer = None, closed = 0, err = None,
      ready = [\<lparr>berr = None, buf = [84, 101, 115, 116], offset = 0, bsize = 4\<rparr>],
      reuse = [], exited = False, cur = None, size_r = 4, buffers = 1\<rparr> \<and>
   Seek SeekerBuffer_Read SeekerBuffer_Seek 0 (fetch_step SeekerBuffer_Read seeker_stream) 0
       SeekCurrent =
     Some ((4, None),
       \<lparr>inp = \<lparr>Bytes = [84, 101, 115, 116, 98, 117, 102, 102, 101, 114], pos = 4\<rparr>,
        closer = None, closed = 0, err = None, ready = [],
        reuse = [\<lparr>berr = None, buf = [0, 0, 0, 0], offset = 0, bsize = 4\<rparr>],
        exited = False, cur = None, size_r = 4, buffers = 1\<rparr>) \<and>
   Read SeekerBuffer_Read
       \<lparr>inp = \<lparr>Bytes = [84, 101, 115, 116, 98, 117, 102, 102, 101, 114], pos = 4\<rparr>,
        closer = None, closed = 0, err = None, ready = [],
        reuse = [\<lparr>berr = None, buf = [0, 0, 0, 0], offset = 0, bsize = 4\<rparr>],
        exited = False, cur = None, size_r = 4, buffers = 1\<rparr> 4 =
     Some ((4, [98, 117, 102, 102], None),
       \<lparr>inp = \<lparr>Bytes = [84, 101, 115, 116, 98, 117, 102, 102, 101, 114], pos = 8\<rparr>,
        closer = None, closed = 0, err = None, ready = [], reuse = [], exited = False,
        cur = Some \<lparr>berr = None, buf = [98, 117, 102, 102], offset = 4, bsize = 4\<rparr>,
        size_r = 4, buffers = 1\<rparr>)"
  by code_simp




section \<open>Close and later reads\<close>

text \<open>
  C8 (read after close).  With a closer, \<^verbatim>\<open>Close\<close> returns through
  \<^verbatim>\<open>return c.Close()\<close> and never reaches the assignment of \<^verbatim>\<open>a.err\<close>.  Here the
  stream has a closer and the goroutine has fetched one chunk: \<^verbatim>\<open>Close\<close> returns
  nil and latches nothing, and the next \<^verbatim>\<open>Read\<close> returns the four buffered bytes
  with a nil error.
\<close>

theorem Close_with_closer_leaves_no_latch:
  "Close SeekerBuffer_Read 0 (fetch_step SeekerBuffer_Read closer_stream) =
     (None,
      \<lparr>inp = \<lparr>Bytes = [84, 101, 115, 116, 98, 117, 102, 102, 101, 114], pos = 4\<rparr>,
       closer = None, closed = 1, err = None,
       ready = [\<lparr>berr = None, buf = [84, 101, 115, 116], offset = 0, bsize = 4\<rparr>],
       reuse = [], exited = True, cur = None, size_r = 4, buffers = 1\<rparr>) \<and>
   Read SeekerBuffer_Read
      \<lparr>inp = \<lparr>Bytes = [84, 101, 115, 116, 98, 117, 102, 102, 101, 114], pos = 4\<rparr>,
       closer = None, closed = 1, err = None,
       ready = [\<lparr>berr = None, buf = [84, 101, 115, 116], offset = 0, bsize = 4\<rparr>],
       reuse = [], exited = True, cur = None, size_r = 4, buffers = 1\<rparr> 4 =
     Some ((4, [84, 101, 115, 116], None),
       \<lparr>inp = \<lparr>Bytes = [84, 101, 115, 116, 98, 117, 102, 102, 101, 114], pos = 4\<rparr>,
        closer = None, closed = 1, err = None, ready = [], reuse = [], exited = True,
        cur = Some \<lparr>berr = None, buf = [84, 101, 115, 116], offset = 4, bsize = 4\<rparr>,
        size_r = 4, buffers = 1\<rparr>)"
  by code_simp

section \<open>Bytes delivered\<close>

text \<open>
  C1 (byte-order fidelity).  When the source's \<^verbatim>\<open>Read\<close> panics, \<^verbatim>\<open>buffer.read\<close>
  leaves \<^verbatim>\<open>b.buf\<close> and \<^verbatim>\<open>b.offset\<close> as they were, and for a buffer that has never
  been filled these are the \<^verbatim>\<open>size\<close> zero bytes of \<^verbatim>\<open>newBuffer\<close> at offset 0.
  Over the reader that always panics, which produces no byte, the first \<^verbatim>\<open>Read\<close>
  delivers two zero bytes with the error; over the reader that produces \<^verbatim>\<open>Te\<close>
  and then panics, the reads deliver \<^verbatim>\<open>Te\<close> and then two zero bytes.
\<close>

theorem Read_after_panic_delivers_zeros:
  "Read panicReader panic_stream 4 =
     Some ((2, [0, 0], Some (PanicReading ''some underlying panic'')),
       \<lparr>inp = (), closer = None, closed = 0,
        err = Some (PanicReading ''some underlying panic''), ready = [], reuse = [],
        exited = True,
        cur = Some \<lparr>berr = Some (PanicReading ''some underlying panic''), buf = [0, 0],
                    offset = 2, bsize = 2\<rparr>,
        size_r = 2, buffers = 1\<rparr>) \<and>
   Read scriptReader late_panic_stream 2 =
     Some ((2, [84, 101], None),
       \<lparr>inp = [Panicked ''late panic''], closer = None, closed = 0, err = None, ready = [],
        reuse = [\<lparr>berr = None, buf = [0, 0], offset = 0, bsize = 2\<rparr>],
        exited = False,
        cur = Some \<lparr>berr = None, buf = [84, 101], offset = 2, bsize = 2\<rparr>,
        size_r = 2, buffers = 2\<rparr>) \<and>
   Read scriptReader
       \<lparr>inp = [Panicked ''late panic''], closer = None, closed = 0, err = None, ready = [],
        reuse = [\<lparr>berr = None, buf = [0, 0], offset = 0, bsize = 2\<rparr>],
        exited = False,
        cur = Some \<lparr>berr = None, buf = [84, 101], offset = 2, bsize = 2\<rparr>,
        size_r = 2, buffers = 2\<rparr> 2 =
     Some ((2, [0, 0], Some (PanicReading ''late panic'')),
       \<lparr>inp = [], closer = None, closed = 0, err = Some (PanicReading ''late panic''),
        ready = [],
        reuse = [\<lparr>berr = None, buf = [84, 101], offset = 2, bsize = 2\<rparr>],
        exited = True,
        cur = Some \<lparr>berr = Some (PanicReading ''late panic''), buf = [0, 0], offset = 2,
                    bsize = 2\<rparr>,
        size_r = 2, buffers = 2\<rparr>)"
  by code_simp

end
